theory Spec2Isabelle
  imports Main
begin

section \<open>Nodes of the waits-for graph\<close>

text \<open>
  The classes \<open>Thread\<close> and \<open>Lock\<close> of \<open>buildscripts/gdb/mongo_lock.py\<close>. Identifiers are
  Python integers. The graph only ever calls \<open>key()\<close> and \<open>str()\<close> on a node, so the two
  classes are the two variants of one node type.
\<close>

record Thread =
  thread_id :: int
  lwpid :: int
  name :: string

record Lock =
  addr :: int
  resource :: string

datatype Node = ThreadNode Thread | LockNode Lock

subsection \<open>Python number formatting\<close>

definition hex_digit :: "nat \<Rightarrow> char" where
  "hex_digit d = ''0123456789abcdef'' ! (d mod 16)"

fun hex_nat :: "nat \<Rightarrow> string" where
  "hex_nat n = (if n < 16 then [hex_digit n] else hex_nat (n div 16) @ [hex_digit (n mod 16)])"

fun dec_nat :: "nat \<Rightarrow> string" where
  "dec_nat n = (if n < 10 then [hex_digit n] else dec_nat (n div 10) @ [hex_digit (n mod 10)])"

definition zero_pad :: "nat \<Rightarrow> string \<Rightarrow> string" where
  "zero_pad w s = replicate (w - length s) (CHR ''0'') @ s"

text \<open>\<open>"{:012x}".format(i)\<close>: lower-case hexadecimal, zero-filled to width 12 with the sign,
  if any, in front of the zeros and counted in the width.\<close>

definition format_012x :: "int \<Rightarrow> string" where
  "format_012x i =
     (if i < 0 then ''-'' @ zero_pad 11 (hex_nat (nat (- i))) else zero_pad 12 (hex_nat (nat i)))"

text \<open>\<open>"{}".format(i)\<close> for an integer.\<close>

definition format_int :: "int \<Rightarrow> string" where
  "format_int i = (if i < 0 then ''-'' @ dec_nat (nat (- i)) else dec_nat (nat i))"

subsection \<open>Keys and descriptions\<close>

definition Thread_key :: "Thread \<Rightarrow> string" where
  "Thread_key t = ''Thread 0x'' @ format_012x (thread_id t)"

definition Thread_str :: "Thread \<Rightarrow> string" where
  "Thread_str t =
     name t @ '' (Thread 0x'' @ format_012x (thread_id t) @ '' (LWP '' @ format_int (lwpid t) @ ''))''"

definition Lock_key :: "Lock \<Rightarrow> string" where
  "Lock_key l = ''Lock 0x'' @ format_012x (addr l)"

definition Lock_str :: "Lock \<Rightarrow> string" where
  "Lock_str l = ''Lock 0x'' @ format_012x (addr l) @ '' ('' @ resource l @ '')''"

fun key :: "Node \<Rightarrow> string" where
  "key (ThreadNode t) = Thread_key t"
| "key (LockNode l) = Lock_key l"

fun str :: "Node \<Rightarrow> string" where
  "str (ThreadNode t) = Thread_str t"
| "str (LockNode l) = Lock_str l"

section \<open>The graph\<close>

text \<open>
  \<open>Graph.nodes\<close> is a dict from node key to \<open>{'node': ..., 'next_nodes': [...]}\<close>. It is
  modelled as an association list in iteration order: a new key goes to the end, and an
  entry that is updated keeps its place.
\<close>

record entry =
  node :: Node
  next_nodes :: "string list"

type_synonym Graph = "(string \<times> entry) list"

definition Graph_init :: Graph where
  "Graph_init = []"

definition is_empty :: "Graph \<Rightarrow> bool" where
  "is_empty g = (g = [])"

definition find_node :: "Graph \<Rightarrow> Node \<Rightarrow> entry option" where
  "find_node g n = map_of g (key n)"

definition add_node :: "Graph \<Rightarrow> Node \<Rightarrow> Graph" where
  "add_node g n =
     (if find_node g n = None then g @ [(key n, \<lparr>node = n, next_nodes = []\<rparr>)] else g)"

text \<open>The first entry, in iteration order, whose outgoing list holds the key of the node
  stored in \<open>from_node\<close>.\<close>

definition find_from_node :: "Graph \<Rightarrow> entry \<Rightarrow> entry option" where
  "find_from_node g from_node =
     map_option snd (find (\<lambda>(k, e). key (node from_node) \<in> set (next_nodes e)) g)"

definition remove_nodes_without_edge :: "Graph \<Rightarrow> Graph" where
  "remove_nodes_without_edge g =
     filter (\<lambda>(k, e). next_nodes e \<noteq> [] \<or> find_from_node g e \<noteq> None) g"

text \<open>\<open>self.nodes[k]['next_nodes'].append(v)\<close>: the entry under \<open>k\<close> is changed in place.\<close>

definition append_next :: "Graph \<Rightarrow> string \<Rightarrow> string \<Rightarrow> Graph" where
  "append_next g k v =
     map (\<lambda>(k', e). if k' = k then (k', e\<lparr>next_nodes := next_nodes e @ [v]\<rparr>) else (k', e)) g"

text \<open>
  \<open>add_edge\<close> registers both endpoints where they are missing, then scans the outgoing list
  of \<open>from_node\<close> for the key of \<open>to_node\<close> and appends it when the scan finds nothing.
  \<open>f_node\<close> is the entry object stored in the dict, so the scan reads the list as it is
  after both registrations. The lookup of \<open>f_node\<close> cannot fail, since \<open>from_node\<close> has
  just been registered; the \<open>None\<close> branch is there only because \<open>map_of\<close> is partial.
\<close>

definition add_edge :: "Graph \<Rightarrow> Node \<Rightarrow> Node \<Rightarrow> Graph" where
  "add_edge g from_node to_node =
     (let g1 = (if find_node g from_node = None then add_node g from_node else g);
          g2 = (if find_node g1 to_node = None then add_node g1 to_node else g1)
      in case map_of g2 (key from_node) of
           None \<Rightarrow> g2
         | Some f_node \<Rightarrow>
             if key to_node \<in> set (next_nodes f_node) then g2
             else append_next g2 (key from_node) (key to_node))"

section \<open>Cycle detection\<close>

text \<open>The exceptions that matter here: the Python ones and \<open>gdb.error\<close> with its message.\<close>

datatype error = KeyError | AttributeError | IndexError | RuntimeError string | gdb_error string

text \<open>
  \<open>depth_first_search\<close> and its \<open>for\<close> loop. \<open>nodes_visited\<close> is a set shared by all calls and
  is returned updated. \<open>nodes_in_cycle\<close> is shared too, but a call that returns \<open>None\<close> has
  popped what it appended, and a call that returns a cycle ends the whole search, so the
  list is passed down only. \<open>self.nodes[node_key]\<close> raises \<open>KeyError\<close> for an unregistered
  key. The result of a nested call is tested for truth (\<open>if dfs_nodes\<close>), so an empty list
  would count as \<open>None\<close>.
\<close>

function depth_first_search ::
    "Graph \<Rightarrow> string \<Rightarrow> string set \<Rightarrow> string list \<Rightarrow> error + (string list option \<times> string set)"
  and dfs_for ::
    "Graph \<Rightarrow> string list \<Rightarrow> string set \<Rightarrow> string list \<Rightarrow> error + (string list option \<times> string set)"
where
  "depth_first_search g node_key nodes_visited nodes_in_cycle =
     (case map_of g node_key of
        None \<Rightarrow> Inl KeyError
      | Some e \<Rightarrow> dfs_for g (next_nodes e) (insert node_key nodes_visited) (nodes_in_cycle @ [node_key]))"
| "dfs_for g [] nodes_visited nodes_in_cycle = Inr (None, nodes_visited)"
| "dfs_for g (n # rest) nodes_visited nodes_in_cycle =
     (if n \<in> set nodes_in_cycle then
        Inr (Some (dropWhile (\<lambda>x. x \<noteq> n) nodes_in_cycle), nodes_visited)
      else if n \<notin> nodes_visited then
        (case depth_first_search g n nodes_visited nodes_in_cycle of
           Inl err \<Rightarrow> Inl err
         | Inr (dfs_nodes, nodes_visited') \<Rightarrow>
             if dfs_nodes \<noteq> None \<and> dfs_nodes \<noteq> Some [] then Inr (dfs_nodes, nodes_visited')
             else dfs_for g rest nodes_visited' nodes_in_cycle)
      else dfs_for g rest nodes_visited nodes_in_cycle)"
  by pat_completeness auto
termination
proof -
  have mono:
    "depth_first_search_dfs_for_dom (Inl (g, k, v, p)) \<Longrightarrow>
       depth_first_search g k v p = Inr (r, v') \<Longrightarrow> v \<subseteq> v'"
    "depth_first_search_dfs_for_dom (Inr (g, ns, v, p)) \<Longrightarrow>
       dfs_for g ns v p = Inr (r, v') \<Longrightarrow> v \<subseteq> v'"
    for g k v p r v' ns
  proof (induction g k v p and g ns v p arbitrary: r v' and r v'
      rule: depth_first_search_dfs_for.pinduct)
    case (1 g node_key nodes_visited nodes_in_cycle)
    then show ?case
      by (auto simp: depth_first_search.psimps split: option.splits)
  next
    case (2 g nodes_visited nodes_in_cycle)
    then show ?case by (simp add: dfs_for.psimps)
  next
    case (3 g n rest nodes_visited nodes_in_cycle)
    show ?case
    proof (cases "n \<in> set nodes_in_cycle")
      case True
      with 3(1,5) show ?thesis by (simp add: dfs_for.psimps)
    next
      case nin: False
      show ?thesis
      proof (cases "n \<in> nodes_visited")
        case True
        with nin 3(1,5) have "dfs_for g rest nodes_visited nodes_in_cycle = Inr (r, v')"
          by (simp add: dfs_for.psimps)
        with 3(4)[OF nin] True show ?thesis by blast
      next
        case False
        show ?thesis
        proof (cases "depth_first_search g n nodes_visited nodes_in_cycle")
          case (Inl e)
          with nin False 3(1,5) show ?thesis by (simp add: dfs_for.psimps)
        next
          case (Inr b)
          obtain x y where b: "b = (x, y)" by (cases b)
          from 3(2)[OF nin False] Inr b have sub: "nodes_visited \<subseteq> y" by blast
          show ?thesis
          proof (cases "x \<noteq> None \<and> x \<noteq> Some []")
            case True
            with nin False 3(1,5) Inr b have "v' = y" by (simp add: dfs_for.psimps)
            with sub show ?thesis by simp
          next
            case nt: False
            with nin False 3(1,5) Inr b have "dfs_for g rest y nodes_in_cycle = Inr (r, v')"
              by (auto simp add: dfs_for.psimps)
            from 3(3)[OF nin False Inr b[symmetric] nt this] sub show ?thesis by blast
          qed
        qed
      qed
    qed
  qed
  show ?thesis
  proof (relation "inv_image (less_than <*lex*> less_than)
      (\<lambda>x. case x of
         Inl (g, k, v, p) \<Rightarrow>
           (if map_of g k = None then (0, 0)
            else (2 * card (set (map fst g) - insert k v) + 1, 0))
       | Inr (g, ns, v, p) \<Rightarrow> (2 * card (set (map fst g) - v), length ns))", goal_cases)
    case 1
    then show ?case by (intro wf_inv_image wf_lex_prod wf_less_than)
  next
    case (2 g node_key nodes_visited nodes_in_cycle x2)
    then show ?case by simp
  next
    case (3 g n rest nodes_visited nodes_in_cycle)
    show ?case
    proof (cases "map_of g n")
      case None
      then show ?thesis by (auto simp: card_gt_0_iff)
    next
      case (Some e)
      then have "n \<in> set (map fst g)"
        by (metis map_of_eq_None_iff option.distinct(1) set_map)
      with 3 have "card (set (map fst g) - insert n nodes_visited)
          < card (set (map fst g) - nodes_visited)"
        by (intro psubset_card_mono) auto
      with Some show ?thesis by simp
    qed
  next
    case (4 g n rest nodes_visited nodes_in_cycle b x y)
    then have "nodes_visited \<subseteq> y" using mono(1) by metis
    then have "card (set (map fst g) - y) \<le> card (set (map fst g) - nodes_visited)"
      by (intro card_mono) auto
    then show ?case by auto
  next
    case (5 g n rest nodes_visited nodes_in_cycle)
    then show ?case by simp
  qed
qed

text \<open>The \<open>for\<close> loop of \<open>detect_cycle\<close> over the keys of the graph; it yields \<open>cycle_path\<close>.\<close>

fun detect_cycle_for :: "Graph \<Rightarrow> string list \<Rightarrow> string set \<Rightarrow> error + string list option" where
  "detect_cycle_for g [] nodes_visited = Inr None"
| "detect_cycle_for g (n # rest) nodes_visited =
     (if n \<notin> nodes_visited then
        (case depth_first_search g n nodes_visited [] of
           Inl err \<Rightarrow> Inl err
         | Inr (cycle_path, nodes_visited') \<Rightarrow>
             if cycle_path \<noteq> None \<and> cycle_path \<noteq> Some [] then Inr cycle_path
             else detect_cycle_for g rest nodes_visited')
      else detect_cycle_for g rest nodes_visited)"

definition cycle_path :: "Graph \<Rightarrow> error + string list option" where
  "cycle_path g = detect_cycle_for g (map fst g) {}"

text \<open>\<open>[str(self.nodes[node_key]['node']) for node_key in cycle_path]\<close>\<close>

fun describe_path :: "Graph \<Rightarrow> string list \<Rightarrow> error + string list" where
  "describe_path g [] = Inr []"
| "describe_path g (k # ks) =
     (case map_of g k of
        None \<Rightarrow> Inl KeyError
      | Some e \<Rightarrow>
          (case describe_path g ks of Inl err \<Rightarrow> Inl err | Inr ds \<Rightarrow> Inr (str (node e) # ds)))"

definition detect_cycle :: "Graph \<Rightarrow> error + string list option" where
  "detect_cycle g =
     (case cycle_path g of
        Inl err \<Rightarrow> Inl err
      | Inr None \<Rightarrow> Inr None
      | Inr (Some p) \<Rightarrow> (case describe_path g p of Inl err \<Rightarrow> Inl err | Inr ds \<Rightarrow> Inr (Some ds)))"

section \<open>Rendering\<close>

definition dq :: char where
  "dq = CHR 0x22"

definition sq :: char where
  "sq = CHR 0x27"

definition nl :: char where
  "nl = CHR 0x0A"

text \<open>\<open>"\n".join(sb)\<close>\<close>

fun join_lines :: "string list \<Rightarrow> string" where
  "join_lines [] = []"
| "join_lines [x] = x"
| "join_lines (x # y # zs) = x @ [nl] @ join_lines (y # zs)"

definition edge_line :: "string \<Rightarrow> string \<Rightarrow> string" where
  "edge_line node_key next_node_key =
     ''    '' @ [dq] @ node_key @ [dq] @ '' -> '' @ [dq] @ next_node_key @ [dq] @ '';''"

definition label_line :: "string \<Rightarrow> Node \<Rightarrow> string \<Rightarrow> string" where
  "label_line node_key n color =
     ''    '' @ [dq] @ node_key @ [dq] @ '' [label='' @ [dq] @ str n @ [dq] @ '' '' @ color @ '']''"

definition to_graph :: "Graph \<Rightarrow> string list option \<Rightarrow> string option \<Rightarrow> string" where
  "to_graph g nodes message =
     join_lines
       ([''# Legend:'',
         ''#    Thread 1 -> Lock 1 indicates Thread 1 is waiting on Lock 1'',
         ''#    Lock 2 -> Thread 2 indicates Lock 2 is held by Thread 2'']
        @ (case message of None \<Rightarrow> [] | Some m \<Rightarrow> [m])
        @ [''digraph '' @ [dq] @ ''mongod+lock-status'' @ [dq] @ '' {'']
        @ concat (map (\<lambda>(node_key, e). map (edge_line node_key) (next_nodes e)) g)
        @ map (\<lambda>(node_key, e).
                 label_line node_key (node e)
                   (if (case nodes of None \<Rightarrow> False | Some ns \<Rightarrow> ns \<noteq> [] \<and> node_key \<in> set ns)
                    then ''color = red'' else [])) g
        @ [''}''])"

section \<open>Collecting the wait facts\<close>

text \<open>
  What gdb answers is input: the threads of the inferior, and for each thread the data
  that the functions below read. A gdb value comes with its text (\<open>str\<close>) and its
  address (\<open>long\<close>). \<open>re.match\<close> is the parameter \<open>re_match\<close>, given the pattern and the
  name. What is printed is collected in order.
\<close>

datatype event = Print string | WriteFile string string

definition ignoring :: "string \<Rightarrow> string \<Rightarrow> string" where
  "ignoring msg place = ''Ignoring GDB error '' @ [sq] @ msg @ [sq] @ '' in '' @ place"

subsection \<open>The threads\<close>

type_synonym thread_dict = "(int \<times> Thread) list"

text \<open>\<open>thread_dict[k] = v\<close>: a key that is there keeps its place.\<close>

fun dict_set :: "('k \<times> 'v) list \<Rightarrow> 'k \<Rightarrow> 'v \<Rightarrow> ('k \<times> 'v) list" where
  "dict_set [] k v = [(k, v)]"
| "dict_set ((k', v') # d) k v = (if k' = k then (k, v) # d else (k', v') # dict_set d k v)"

text \<open>
  A thread as \<open>get_threads_info\<close> meets it: not valid, or \<open>switch()\<close> raises \<open>gdb.error\<close>, or
  it is selected and has an LWP id, a number, and what \<open>get_current_thread_name()\<close> and
  \<open>get_thread_id()\<close> give there: a \<open>gdb.error\<close>, or a name and an id, which may be \<open>None\<close>.
  These two functions are not defined in this module.
\<close>

datatype info_obs =
    InfoInvalid
  | InfoSwitchError string
  | InfoThread int int "string + (string \<times> int option)"

fun get_threads_info_loop ::
    "thread_dict \<Rightarrow> event list \<Rightarrow> info_obs list \<Rightarrow> thread_dict \<times> event list" where
  "get_threads_info_loop thread_dict printed [] = (thread_dict, printed)"
| "get_threads_info_loop thread_dict printed (InfoInvalid # ts) =
     get_threads_info_loop thread_dict printed ts"
| "get_threads_info_loop thread_dict printed (InfoSwitchError msg # ts) =
     get_threads_info_loop thread_dict
       (printed @ [Print (ignoring msg ''get_threads_info'')]) ts"
| "get_threads_info_loop thread_dict printed (InfoThread lwp thread_num info # ts) =
     (case info of
        Inl msg \<Rightarrow>
          get_threads_info_loop thread_dict
            (printed @ [Print (ignoring msg ''get_threads_info'')]) ts
      | Inr (thread_name, tid) \<Rightarrow>
          (case tid of
             None \<Rightarrow>
               get_threads_info_loop thread_dict
                 (printed @ [Print (''Unable to retrieve thread_info for thread ''
                                    @ format_int thread_num)]) ts
           | Some i \<Rightarrow>
               if i = 0 then
                 get_threads_info_loop thread_dict
                   (printed @ [Print (''Unable to retrieve thread_info for thread ''
                                      @ format_int thread_num)]) ts
               else
                 get_threads_info_loop
                   (dict_set thread_dict lwp
                      \<lparr>thread_id = i, lwpid = lwp, name = thread_name\<rparr>)
                   printed ts))"

definition get_threads_info :: "info_obs list \<Rightarrow> thread_dict \<times> event list" where
  "get_threads_info threads = get_threads_info_loop [] [] threads"

definition find_thread :: "thread_dict \<Rightarrow> int \<Rightarrow> Thread option" where
  "find_thread thread_dict search_thread_id =
     map_option snd (find (\<lambda>(_, thread). thread_id thread = search_thread_id) thread_dict)"

subsection \<open>The frames of a thread\<close>

text \<open>A block and its superblocks, innermost first: for each the name of its function,
  if it has one.\<close>

type_synonym block = "string option list"

fun find_func_block :: "block \<Rightarrow> string option" where
  "find_func_block [] = None"
| "find_func_block (f # superblocks) =
     (case f of Some fname \<Rightarrow> Some fname | None \<Rightarrow> find_func_block superblocks)"

text \<open>\<open>frame.block()\<close> gives a block or raises.\<close>

datatype block_result = Block block | BlockRaises error

text \<open>\<open>err.args[0]\<close> of an exception that \<open>except RuntimeError\<close> catches; \<open>gdb.error\<close> is a
  subclass of \<open>RuntimeError\<close>.\<close>

fun runtime_message :: "error \<Rightarrow> string option" where
  "runtime_message (gdb_error msg) = Some msg"
| "runtime_message (RuntimeError msg) = Some msg"
| "runtime_message _ = None"

text \<open>One request of a granted list: the text of its mode and the \<open>_threadId\<close> of its
  locker.\<close>

record lock_request =
  mode_text :: string
  locker_thread_id :: int

text \<open>
  The lock head that \<open>parse_and_eval\<close> gives in a frame: its text and address, the requests
  of its granted list, and the \<open>gdb.error\<close>, if any, that ends the walk over them.
\<close>

record lock_head =
  head_text :: string
  head_addr :: int
  granted :: "lock_request list"
  walk_error :: "string option"

text \<open>
  What the finders read in a frame: the \<open>gdb.error\<close> that \<open>select()\<close> raises, if any; the
  mutex \<open>this\<close> as text and address with its \<open>__owner\<close>, or the \<open>gdb.error\<close> raised while
  it is read; the lock head, or the \<open>gdb.error\<close> raised while it is evaluated.
\<close>

record frame_data =
  select_error :: "string option"
  mutex_read :: "string + (string \<times> int \<times> int)"
  lock_read :: "string + lock_head"

text \<open>A frame, and what \<open>older()\<close> gives: nothing, a \<open>gdb.error\<close>, or the next frame.\<close>

datatype frame = Frame block_result frame_data older
  and older = NoOlder | OlderRaises string | Older frame

fun data_of :: "frame \<Rightarrow> frame_data" where
  "data_of (Frame b d old) = d"

record pass_state =
  graph :: "Graph option"
  out :: "event list"

definition emit :: "pass_state \<Rightarrow> string \<Rightarrow> pass_state" where
  "emit st line = st\<lparr>out := out st @ [Print line]\<rparr>"

text \<open>
  \<open>find_frame\<close>, from a given frame on. It returns the exception it raised, if any, the
  frame it found, if any, and the state.
\<close>

fun find_frame_from ::
    "pass_state \<Rightarrow> (string \<Rightarrow> string \<Rightarrow> bool) \<Rightarrow> string \<Rightarrow> frame \<Rightarrow>
     error option \<times> frame option \<times> pass_state" where
  "find_frame_from st re_match function_name_pattern (Frame b d old) =
     (case (case b of
              Block blk \<Rightarrow> Inr (find_func_block blk)
            | BlockRaises err \<Rightarrow>
                if runtime_message err = Some ''Cannot locate block for frame.''
                then Inr None else Inl err) of
        Inl err \<Rightarrow> (Some err, None, st)
      | Inr func \<Rightarrow>
          if (case func of None \<Rightarrow> False | Some fname \<Rightarrow> re_match function_name_pattern fname)
          then (None, Some (Frame b d old), st)
          else (case old of
                  NoOlder \<Rightarrow> (None, None, st)
                | OlderRaises msg \<Rightarrow> (None, None, emit st (ignoring msg ''find_frame''))
                | Older f \<Rightarrow> find_frame_from st re_match function_name_pattern f))"

text \<open>\<open>find_frame\<close>: \<open>gdb.newest_frame()\<close> gives a frame or raises \<open>gdb.error\<close>.\<close>

definition find_frame ::
    "pass_state \<Rightarrow> (string \<Rightarrow> string \<Rightarrow> bool) \<Rightarrow> string \<Rightarrow> string + frame \<Rightarrow>
     error option \<times> frame option \<times> pass_state" where
  "find_frame st re_match function_name_pattern newest =
     (case newest of
        Inl msg \<Rightarrow> (Some (gdb_error msg), None, st)
      | Inr f \<Rightarrow> find_frame_from st re_match function_name_pattern f)"

definition bs :: char where
  "bs = CHR 0x5C"

definition mutex_lock_pattern :: string where
  "mutex_lock_pattern = ''std::mutex::lock'' @ [bs] @ ''('' @ [bs] @ '')''"

definition locker_impl_pattern :: string where
  "locker_impl_pattern = ''mongo::LockerImpl'' @ [bs] @ ''<.*'' @ [bs] @ ''>::''"

subsection \<open>The two finders\<close>

text \<open>A finder returns the exception it raised, if any, and the state at that moment.
  \<open>selected_lwpid\<close> is the LWP id in \<open>gdb.selected_thread().ptid\<close>.\<close>

definition find_mutex_holder ::
    "pass_state \<Rightarrow> (string \<Rightarrow> string \<Rightarrow> bool) \<Rightarrow> thread_dict \<Rightarrow> bool \<Rightarrow> int \<Rightarrow>
     string + frame \<Rightarrow> error option \<times> pass_state" where
  "find_mutex_holder st re_match thread_dict show selected_lwpid newest =
     (case find_frame st re_match mutex_lock_pattern newest of
        (Some err, _, st0) \<Rightarrow> (Some err, st0)
      | (None, None, st0) \<Rightarrow> (None, st0)
      | (None, Some fr, st0) \<Rightarrow>
          (case select_error (data_of fr) of
             Some msg \<Rightarrow> (Some (gdb_error msg), st0)
           | None \<Rightarrow>
               (case mutex_read (data_of fr) of
                  Inl msg \<Rightarrow> (Some (gdb_error msg), st0)
                | Inr (mutex_text, mutex_addr, mutex_holder_lwpid) \<Rightarrow>
                    (let (st1, mutex_holder) =
                           (case map_of thread_dict mutex_holder_lwpid of
                              None \<Rightarrow>
                                (emit st0
                                   (''Warning: Mutex at '' @ mutex_text
                                    @ '' held by thread with LWP ''
                                    @ format_int mutex_holder_lwpid
                                    @ '' not found in thread_dict. Using LWP to track thread.''),
                                 \<lparr>thread_id = mutex_holder_lwpid, lwpid = mutex_holder_lwpid,
                                   name = [dq] @ ''[unknown]'' @ [dq]\<rparr>)
                            | Some t \<Rightarrow> (st0, t))
                     in case map_of thread_dict selected_lwpid of
                          None \<Rightarrow> (Some KeyError, st1)
                        | Some mutex_waiter \<Rightarrow>
                            (let st2 = (if show
                                        then emit st1
                                               (''Mutex at '' @ mutex_text @ '' held by ''
                                                @ Thread_str mutex_holder @ '' waited on by ''
                                                @ Thread_str mutex_waiter)
                                        else st1);
                                 lock = LockNode \<lparr>addr = mutex_addr, resource = ''Mutex''\<rparr>
                             in (None,
                                 case graph st2 of
                                   None \<Rightarrow> st2
                                 | Some g \<Rightarrow>
                                     st2\<lparr>graph :=
                                           Some (add_edge
                                                   (add_edge g (ThreadNode mutex_waiter) lock)
                                                   lock (ThreadNode mutex_holder))\<rparr>))))))"

text \<open>
  The \<open>while lock_request_ptr\<close> loop. \<open>find_thread\<close> gives \<open>None\<close> for a holder that is not in
  \<open>thread_dict\<close>, and \<open>add_edge\<close> then raises \<open>AttributeError\<close> at \<open>to_node.key()\<close>, after
  it has looked \<open>from_node\<close> up (and registered it, were it missing).
\<close>

fun granted_list_loop ::
    "pass_state \<Rightarrow> thread_dict \<Rightarrow> bool \<Rightarrow> Thread \<Rightarrow> string \<Rightarrow> int \<Rightarrow> lock_request list \<Rightarrow>
     string option \<Rightarrow> error option \<times> pass_state" where
  "granted_list_loop st thread_dict show lock_waiter htext haddr [] werr =
     (case werr of None \<Rightarrow> (None, st) | Some msg \<Rightarrow> (Some (gdb_error msg), st))"
| "granted_list_loop st thread_dict show lock_waiter htext haddr (r # rs) werr =
     (let lock_holder = find_thread thread_dict (locker_thread_id r);
          st1 = (if show
                 then emit st (''MongoDB Lock at '' @ htext @ '' ('' @ mode_text r @ '') held by ''
                               @ (case lock_holder of None \<Rightarrow> ''None'' | Some h \<Rightarrow> Thread_str h)
                               @ '' waited on by '' @ Thread_str lock_waiter)
                 else st);
          lock = LockNode \<lparr>addr = haddr, resource = ''MongoDB lock''\<rparr>
      in case graph st1 of
           None \<Rightarrow> granted_list_loop st1 thread_dict show lock_waiter htext haddr rs werr
         | Some g \<Rightarrow>
             (let g1 = add_edge g (ThreadNode lock_waiter) lock
              in case lock_holder of
                   None \<Rightarrow>
                     (Some AttributeError,
                      st1\<lparr>graph := Some (if find_node g1 lock = None then add_node g1 lock else g1)\<rparr>)
                 | Some h \<Rightarrow>
                     granted_list_loop (st1\<lparr>graph := Some (add_edge g1 lock (ThreadNode h))\<rparr>)
                       thread_dict show lock_waiter htext haddr rs werr))"

definition find_lock_manager_holders ::
    "pass_state \<Rightarrow> (string \<Rightarrow> string \<Rightarrow> bool) \<Rightarrow> thread_dict \<Rightarrow> bool \<Rightarrow> int \<Rightarrow>
     string + frame \<Rightarrow> error option \<times> pass_state" where
  "find_lock_manager_holders st re_match thread_dict show selected_lwpid newest =
     (case find_frame st re_match locker_impl_pattern newest of
        (Some err, _, st0) \<Rightarrow> (Some err, st0)
      | (None, None, st0) \<Rightarrow> (None, st0)
      | (None, Some fr, st0) \<Rightarrow>
          (case select_error (data_of fr) of
             Some msg \<Rightarrow> (Some (gdb_error msg), st0)
           | None \<Rightarrow>
               (case map_of thread_dict selected_lwpid of
                  None \<Rightarrow> (Some KeyError, st0)
                | Some lock_waiter \<Rightarrow>
                    (case lock_read (data_of fr) of
                       Inl msg \<Rightarrow> (Some (gdb_error msg), st0)
                     | Inr head \<Rightarrow>
                         granted_list_loop st0 thread_dict show lock_waiter (head_text head)
                           (head_addr head) (granted head) (walk_error head)))))"

text \<open>
  A thread as \<open>get_locks\<close> meets it: not valid, or \<open>switch()\<close> raises \<open>gdb.error\<close>, or it is
  selected and has an LWP id and a newest frame, unless \<open>gdb.newest_frame()\<close> raises.
\<close>

datatype thread_obs =
    InvalidThread
  | SwitchError string
  | Selected int "string + frame"

text \<open>\<open>get_locks\<close> catches \<open>gdb.error\<close> per thread and goes on; any other exception leaves it.\<close>

fun get_locks ::
    "pass_state \<Rightarrow> (string \<Rightarrow> string \<Rightarrow> bool) \<Rightarrow> thread_dict \<Rightarrow> bool \<Rightarrow> thread_obs list \<Rightarrow>
     error option \<times> pass_state" where
  "get_locks st re_match thread_dict show [] = (None, st)"
| "get_locks st re_match thread_dict show (InvalidThread # ts) =
     get_locks st re_match thread_dict show ts"
| "get_locks st re_match thread_dict show (SwitchError msg # ts) =
     get_locks (emit st (ignoring msg ''get_locks'')) re_match thread_dict show ts"
| "get_locks st re_match thread_dict show (Selected selected_lwpid newest # ts) =
     (case find_mutex_holder st re_match thread_dict show selected_lwpid newest of
        (Some (gdb_error msg), st1) \<Rightarrow>
          get_locks (emit st1 (ignoring msg ''get_locks'')) re_match thread_dict show ts
      | (Some err, st1) \<Rightarrow> (Some err, st1)
      | (None, st1) \<Rightarrow>
          (case find_lock_manager_holders st1 re_match thread_dict show selected_lwpid newest of
             (Some (gdb_error msg), st2) \<Rightarrow>
               get_locks (emit st2 (ignoring msg ''get_locks'')) re_match thread_dict show ts
           | (Some err, st2) \<Rightarrow> (Some err, st2)
           | (None, st2) \<Rightarrow> get_locks st2 re_match thread_dict show ts))"

section \<open>The command \<open>mongodb-waitsfor-graph\<close>\<close>

text \<open>\<open>s.split("# ")\<close>, with the piece collected so far.\<close>

fun split_hash :: "string \<Rightarrow> string \<Rightarrow> string list" where
  "split_hash acc [] = [acc]"
| "split_hash acc [c] = [acc @ [c]]"
| "split_hash acc (c # d # cs) =
     (if c = CHR ''#'' \<and> d = CHR '' '' then acc # split_hash [] cs
      else split_hash (acc @ [c]) (d # cs))"

text \<open>
  \<open>mongodb_waitsfor_graph\<close>. Python's rendering of a list of strings by \<open>%s\<close> is the
  parameter \<open>list_repr\<close>. \<open>info_threads\<close> is what \<open>gdb.selected_inferior().threads()\<close> gives
  in \<open>get_threads_info\<close> and \<open>lock_threads\<close> what it gives in \<open>get_locks\<close>: the threads, or a
  \<open>gdb.error\<close>, which only the command catches. The result is what the command printed and
  wrote, and the exception that ended it, if one did.
\<close>

definition mongodb_waitsfor_graph ::
    "(string list \<Rightarrow> string) \<Rightarrow> (string \<Rightarrow> string \<Rightarrow> bool) \<Rightarrow> string + info_obs list \<Rightarrow>
     string + thread_obs list \<Rightarrow> string option \<Rightarrow> error option \<times> event list" where
  "mongodb_waitsfor_graph list_repr re_match info_threads lock_threads graph_file =
     (case info_threads of
        Inl msg \<Rightarrow> (None, [Print (ignoring msg ''mongod_deadlock_graph'')])
      | Inr infos \<Rightarrow>
          (case get_threads_info infos of
             (thread_dict, printed) \<Rightarrow>
               (case lock_threads of
                  Inl msg \<Rightarrow> (None, printed @ [Print (ignoring msg ''mongod_deadlock_graph'')])
                | Inr threads \<Rightarrow>
                    (case get_locks \<lparr>graph = Some Graph_init, out = printed\<rparr> re_match
                            thread_dict False threads of
                       (Some (gdb_error msg), st) \<Rightarrow>
                         (None, out st @ [Print (ignoring msg ''mongod_deadlock_graph'')])
                     | (Some err, st) \<Rightarrow> (Some err, out st)
                     | (None, st) \<Rightarrow>
                         (case graph st of
                            None \<Rightarrow> (Some AttributeError, out st)
                          | Some g0 \<Rightarrow>
                              (let g = remove_nodes_without_edge g0
                               in if is_empty g
                                  then (None,
                                        out st @
                                        [Print ''Not generating the digraph, since the lock graph is empty''])
                                  else
                                    (case detect_cycle g of
                                       Inl err \<Rightarrow> (Some err, out st)
                                     | Inr cycle_nodes \<Rightarrow>
                                         (let cycle_message =
                                                (if cycle_nodes \<noteq> None \<and> cycle_nodes \<noteq> Some []
                                                 then ''# Cycle detected in the graph nodes ''
                                                      @ list_repr (the cycle_nodes)
                                                 else ''# No cycle detected in the graph'')
                                          in if graph_file \<noteq> None \<and> graph_file \<noteq> Some []
                                             then
                                               (case split_hash [] cycle_message of
                                                  a # b # _ \<Rightarrow>
                                                    (None,
                                                     out st @
                                                     [Print (''Saving digraph to '' @ the graph_file),
                                                      WriteFile (the graph_file)
                                                        (to_graph g cycle_nodes (Some cycle_message)),
                                                      Print b])
                                                | _ \<Rightarrow>
                                                    (Some IndexError,
                                                     out st @
                                                     [Print (''Saving digraph to '' @ the graph_file),
                                                      WriteFile (the graph_file)
                                                        (to_graph g cycle_nodes
                                                           (Some cycle_message))]))
                                             else
                                               (None,
                                                out st @
                                                [Print (to_graph g cycle_nodes
                                                          (Some cycle_message))])))))))))"

section \<open>Notions used to state the properties\<close>

text \<open>The outgoing list of a key; a key that is not registered has no edge.\<close>

definition outgoing :: "Graph \<Rightarrow> string \<Rightarrow> string list" where
  "outgoing g k = (case map_of g k of None \<Rightarrow> [] | Some e \<Rightarrow> next_nodes e)"

definition has_edge :: "Graph \<Rightarrow> string \<Rightarrow> string \<Rightarrow> bool" where
  "has_edge g u v = (v \<in> set (outgoing g u))"

text \<open>A sequence of keys in which each one has an edge to the next.\<close>

fun walk :: "Graph \<Rightarrow> string list \<Rightarrow> bool" where
  "walk g [] = True"
| "walk g [u] = True"
| "walk g (u # v # ws) = (has_edge g u v \<and> walk g (v # ws))"

text \<open>A cycle: a non-empty walk whose last key has an edge back to the first.\<close>

definition is_cycle :: "Graph \<Rightarrow> string list \<Rightarrow> bool" where
  "is_cycle g ws = (ws \<noteq> [] \<and> walk g ws \<and> has_edge g (last ws) (hd ws))"

definition has_cycle :: "Graph \<Rightarrow> bool" where
  "has_cycle g = (\<exists>ws. is_cycle g ws)"

text \<open>
  What holds of \<open>Graph.nodes\<close> by construction: it is a dict, so no key occurs twice, and
  each entry is stored under the key of its node.
\<close>

definition dict_ok :: "Graph \<Rightarrow> bool" where
  "dict_ok g = (distinct (map fst g) \<and> (\<forall>(k, e) \<in> set g. key (node e) = k))"

text \<open>The two invariants of the outgoing lists: every key in one is registered, and none
  occurs twice in the same list.\<close>

definition edges_ok :: "Graph \<Rightarrow> bool" where
  "edges_ok g =
     (\<forall>(k, e) \<in> set g. set (next_nodes e) \<subseteq> set (map fst g) \<and> distinct (next_nodes e))"

definition graph_inv :: "Graph \<Rightarrow> bool" where
  "graph_inv g = (dict_ok g \<and> edges_ok g)"

text \<open>\<open>__eq__\<close> of \<open>Thread\<close> and of \<open>Lock\<close>: same class and same identifier.\<close>

fun Node_eq :: "Node \<Rightarrow> Node \<Rightarrow> bool" where
  "Node_eq (ThreadNode a) (ThreadNode b) = (thread_id a = thread_id b)"
| "Node_eq (LockNode a) (LockNode b) = (addr a = addr b)"
| "Node_eq _ _ = False"

text \<open>
  The keys on a search path \<open>P\<close> that was extended to a walk without repetition whose last
  key has an edge back into it: \<open>c\<close> is the part of that walk from the key the edge
  leads to.
\<close>

definition cycle_from :: "Graph \<Rightarrow> string list \<Rightarrow> string list \<Rightarrow> bool" where
  "cycle_from g P c =
     (\<exists>pre suf. P @ suf = pre @ c \<and> walk g (P @ suf) \<and> distinct (P @ suf) \<and> c \<noteq> [] \<and>
        has_edge g (last c) (hd c))"

text \<open>A set of keys that no edge leaves and in which no key lies on a cycle.\<close>

definition closed_acyclic :: "Graph \<Rightarrow> string set \<Rightarrow> bool" where
  "closed_acyclic g B =
     ((\<forall>u \<in> B. \<forall>v. has_edge g u v \<longrightarrow> v \<in> B) \<and>
      (\<forall>u \<in> B. (u, u) \<notin> {(u, v). has_edge g u v}\<^sup>+))"

text \<open>
  The search as the specification describes it, as a machine with an explicit stack. A
  configuration holds the set \<open>visited\<close>, the stack of the nodes being explored, the root
  first, each with the neighbours it has still to examine, and the keys of the graph from
  which a search has still to be started. \<open>path\<close> is the sequence of the nodes on the
  stack. For each key not yet visited a search starts: the node is marked visited and
  pushed. A neighbour that is visited and not on the path is passed over; one that is not
  visited is marked and pushed; a node with no neighbour left is popped. There is no step
  from a configuration whose next neighbour is on the path: there the cycle is found.
\<close>

type_synonym activation = "string \<times> string list"

type_synonym config = "string set \<times> activation list \<times> string list"

definition path_of :: "activation list \<Rightarrow> string list" where
  "path_of stack = map fst stack"

inductive search_step :: "Graph \<Rightarrow> config \<Rightarrow> config \<Rightarrow> bool" for g :: Graph where
  root_visited:
    "r \<in> V \<Longrightarrow> search_step g (V, [], r # rs) (V, [], rs)"
| root_start:
    "r \<notin> V \<Longrightarrow> search_step g (V, [], r # rs) (insert r V, [(r, outgoing g r)], rs)"
| neighbour_visited:
    "n \<notin> set (path_of (fs @ [(u, n # ns)])) \<Longrightarrow> n \<in> V \<Longrightarrow>
       search_step g (V, fs @ [(u, n # ns)], rs) (V, fs @ [(u, ns)], rs)"
| neighbour_new:
    "n \<notin> set (path_of (fs @ [(u, n # ns)])) \<Longrightarrow> n \<notin> V \<Longrightarrow>
       search_step g (V, fs @ [(u, n # ns)], rs)
         (insert n V, fs @ [(u, ns), (n, outgoing g n)], rs)"
| backtrack:
    "search_step g (V, fs @ [(u, [])], rs) (V, fs, rs)"

text \<open>
  The path of a configuration is a walk without repetition, and the neighbours a node on
  the stack has still to examine are neighbours of it in the graph.
\<close>

definition path_ok :: "Graph \<Rightarrow> config \<Rightarrow> bool" where
  "path_ok g cfg =
     (case cfg of (V, stack, rs) \<Rightarrow>
        distinct (path_of stack) \<and> walk g (path_of stack) \<and>
        (\<forall>(u, ns) \<in> set stack. set ns \<subseteq> set (outgoing g u)))"

text \<open>The configuration at the start of \<open>detectCycle\<close>.\<close>

definition search_init :: "Graph \<Rightarrow> config" where
  "search_init g = ({}, [], map fst g)"

text \<open>The next neighbour to examine is \<open>n\<close>, and \<open>n\<close> is on the path.\<close>

definition at_reencounter :: "config \<Rightarrow> string \<Rightarrow> bool" where
  "at_reencounter cfg n =
     (case cfg of (V, stack, rs) \<Rightarrow>
        (\<exists>fs u ns. stack = fs @ [(u, n # ns)]) \<and> n \<in> set (path_of stack))"

text \<open>The path from the position of \<open>n\<close> to its end.\<close>

definition path_from :: "config \<Rightarrow> string \<Rightarrow> string list" where
  "path_from cfg n = (case cfg of (V, stack, rs) \<Rightarrow> dropWhile (\<lambda>x. x \<noteq> n) (path_of stack))"

text \<open>The description of the node registered under a key.\<close>

definition description :: "Graph \<Rightarrow> string \<Rightarrow> string" where
  "description g k = (case map_of g k of None \<Rightarrow> [] | Some e \<Rightarrow> str (node e))"

text \<open>A printed line that does not begin with \<open>#\<close>, as every rendering of a graph does.\<close>

definition notice :: "event \<Rightarrow> bool" where
  "notice ev = (case ev of Print s \<Rightarrow> s \<noteq> [] \<and> hd s \<noteq> CHR ''#'' | WriteFile f c \<Rightarrow> False)"

section \<open>Concrete inputs\<close>

text \<open>Two threads and two locks.\<close>

definition T1 :: Node where
  "T1 = ThreadNode \<lparr>thread_id = 1, lwpid = 101, name = ''conn1''\<rparr>"

definition T2 :: Node where
  "T2 = ThreadNode \<lparr>thread_id = 2, lwpid = 102, name = ''conn2''\<rparr>"

definition L1 :: Node where
  "L1 = LockNode \<lparr>addr = 161, resource = ''Mutex''\<rparr>"

definition L2 :: Node where
  "L2 = LockNode \<lparr>addr = 162, resource = ''MongoDB lock''\<rparr>"

text \<open>Scenario A: \<open>T1\<close> waits on \<open>L1\<close>, held by \<open>T2\<close>, which waits on \<open>L2\<close>, held by \<open>T1\<close>.\<close>

definition scenario_A :: Graph where
  "scenario_A = add_edge (add_edge (add_edge (add_edge Graph_init T1 L1) L1 T2) T2 L2) L2 T1"

text \<open>A chain without a cycle: \<open>T1\<close> waits on \<open>L1\<close>, held by \<open>T2\<close>, which waits on nothing.\<close>

definition chain_graph :: Graph where
  "chain_graph = add_edge (add_edge Graph_init T1 L1) L1 T2"

text \<open>A registered thread without any edge next to a two-node cycle.\<close>

definition idle_graph :: Graph where
  "idle_graph = add_node (add_edge (add_edge Graph_init T1 L1) L1 T1) T2"

text \<open>A matcher that knows the two patterns and one function name for each.\<close>

definition example_match :: "string \<Rightarrow> string \<Rightarrow> bool" where
  "example_match pat fname =
     (pat = mutex_lock_pattern \<and> fname = ''std::mutex::lock()'' \<or>
      pat = locker_impl_pattern \<and> fname = ''mongo::LockerImpl<false>::lockComplete'')"

text \<open>A thread snapshot with the thread \<open>conn1\<close> only.\<close>

definition one_thread :: "info_obs list" where
  "one_thread = [InfoThread 101 1 (Inr (''conn1'', Some 1))]"

text \<open>
  \<open>conn1\<close> waits in \<open>mongo::LockerImpl<false>::lockComplete\<close> for the lock at \<open>0xa2\<close>, which
  is granted to a locker whose thread id 2 is not in the snapshot.
\<close>

definition lock_wait_unknown_holder :: "thread_obs list" where
  "lock_wait_unknown_holder =
     [Selected 101
        (Inr (Frame (Block [None, Some ''mongo::LockerImpl<false>::lockComplete''])
                \<lparr>select_error = None, mutex_read = Inl ''No symbol this in current context.'',
                  lock_read = Inr \<lparr>head_text = ''0xa2'', head_addr = 162,
                                   granted = [\<lparr>mode_text = ''MODE_X'', locker_thread_id = 2\<rparr>],
                                   walk_error = None\<rparr>\<rparr>
                NoOlder))]"

text \<open>\<open>conn1\<close> waits in \<open>std::mutex::lock()\<close> for the mutex at \<open>0xa1\<close>, whose owner has the
  LWP id 102, which is not in the snapshot.\<close>

definition mutex_wait_unknown_holder :: "thread_obs list" where
  "mutex_wait_unknown_holder =
     [Selected 101
        (Inr (Frame (Block [Some ''std::mutex::lock()''])
                \<lparr>select_error = None, mutex_read = Inr (''0xa1'', 161, 102),
                  lock_read = Inl ''No symbol resId in current context.''\<rparr>
                NoOlder))]"

text \<open>
  A quiet inferior: \<open>conn1\<close> waits for nothing, one thread is not valid, one cannot be
  switched to, and one has no thread id and a stack that cannot be walked.
\<close>

definition quiet_info :: "info_obs list" where
  "quiet_info =
     [InfoThread 101 1 (Inr (''conn1'', Some 1)), InfoInvalid, InfoSwitchError ''gone'',
      InfoThread 103 3 (Inr (''worker'', None))]"

definition quiet_threads :: "thread_obs list" where
  "quiet_threads =
     [Selected 101
        (Inr (Frame (Block [None, Some ''poll''])
                \<lparr>select_error = None, mutex_read = Inl ''No symbol this in current context.'',
                  lock_read = Inl ''No symbol resId in current context.''\<rparr>
                NoOlder)),
      InvalidThread, SwitchError ''gone'',
      Selected 103
        (Inr (Frame (BlockRaises (RuntimeError ''Cannot locate block for frame.''))
                \<lparr>select_error = None, mutex_read = Inl ''No symbol this in current context.'',
                  lock_read = Inl ''No symbol resId in current context.''\<rparr>
                (OlderRaises ''corrupt stack'')))]"

section \<open>Registering nodes and edges\<close>

lemma map_fst_append_next: "map fst (append_next g k v) = map fst g"
  by (induction g) (auto simp: append_next_def)

lemma map_of_append_next:
  "map_of (append_next g k v) k' =
     map_option (\<lambda>e. if k' = k then e\<lparr>next_nodes := next_nodes e @ [v]\<rparr> else e) (map_of g k')"
  by (induction g) (auto simp: append_next_def)

lemma map_of_add_node:
  "map_of (add_node g n) k =
     (case map_of g k of Some e \<Rightarrow> Some e
      | None \<Rightarrow> if k = key n then Some \<lparr>node = n, next_nodes = []\<rparr> else None)"
  by (auto simp: add_node_def find_node_def map_add_def split: option.splits)

lemma add_edge_alt:
  "add_edge g f t =
     (let g2 = add_node (add_node g f) t
      in if key t \<in> set (outgoing g2 (key f)) then g2 else append_next g2 (key f) (key t))"
proof -
  have 1: "(if find_node g f = None then add_node g f else g) = add_node g f"
    by (simp add: add_node_def)
  have 2: "(if find_node (add_node g f) t = None then add_node (add_node g f) t else add_node g f)
      = add_node (add_node g f) t"
    by (simp add: add_node_def[of "add_node g f" t])
  have 3: "map_of (add_node (add_node g f) t) (key f) \<noteq> None"
    by (simp add: map_of_add_node split: option.splits)
  show ?thesis
    unfolding add_edge_def 1 2 Let_def outgoing_def using 3
    by (auto split: option.splits)
qed

lemma add_node_id: "map_of g (key n) \<noteq> None \<Longrightarrow> add_node g n = g"
  by (simp add: add_node_def find_node_def)

lemma registered_add_node: "map_of g k \<noteq> None \<Longrightarrow> map_of (add_node g n) k \<noteq> None"
  by (auto simp add: map_of_add_node split: option.splits)

lemma registered_add_node_self: "map_of (add_node g n) (key n) \<noteq> None"
  by (simp add: map_of_add_node split: option.splits)

lemma registered_append_next: "map_of (append_next g k v) k' \<noteq> None \<longleftrightarrow> map_of g k' \<noteq> None"
  by (simp add: map_of_append_next)

lemma outgoing_append_next:
  "outgoing (append_next g k v) k' =
     (if k' = k \<and> map_of g k \<noteq> None then outgoing g k @ [v] else outgoing g k')"
  by (auto simp: outgoing_def map_of_append_next split: option.splits)

lemma add_edge_twice: "add_edge (add_edge g f t) f t = add_edge g f t"
proof -
  define g2 where "g2 = add_node (add_node g f) t"
  have rf: "map_of g2 (key f) \<noteq> None" and rt: "map_of g2 (key t) \<noteq> None"
    unfolding g2_def by (simp_all add: registered_add_node registered_add_node_self)
  show ?thesis
  proof (cases "key t \<in> set (outgoing g2 (key f))")
    case True
    then have e: "add_edge g f t = g2" by (simp add: add_edge_alt g2_def)
    have "add_node (add_node g2 f) t = g2" using rf rt by (simp add: add_node_id)
    then have "add_edge g2 f t = g2" using True by (simp add: add_edge_alt)
    with e show ?thesis by simp
  next
    case False
    define g3 where "g3 = append_next g2 (key f) (key t)"
    from False have e: "add_edge g f t = g3" by (simp add: add_edge_alt g2_def g3_def)
    have "map_of g3 (key f) \<noteq> None" "map_of g3 (key t) \<noteq> None"
      using rf rt unfolding g3_def registered_append_next by blast+
    then have a: "add_node (add_node g3 f) t = g3" by (simp add: add_node_id)
    have "key t \<in> set (outgoing g3 (key f))" using rf by (simp add: g3_def outgoing_append_next)
    with a have "add_edge g3 f t = g3" by (simp add: add_edge_alt)
    with e show ?thesis by simp
  qed
qed

lemma outgoing_add_node: "outgoing (add_node g n) k = outgoing g k"
  by (simp add: outgoing_def map_of_add_node split: option.splits)

lemma outgoing_add_edge:
  "outgoing (add_edge g f t) k =
     (if k = key f \<and> key t \<notin> set (outgoing g (key f)) then outgoing g (key f) @ [key t]
      else outgoing g k)"
  by (simp add: add_edge_alt Let_def outgoing_append_next outgoing_add_node
      registered_add_node registered_add_node_self)

text \<open>
  C5. \<open>add_edge\<close> is idempotent: for every graph, every pair of nodes and every \<open>N \<ge> 1\<close>,
  \<open>N\<close> calls of \<open>add_edge(from_node, to_node)\<close> leave the graph as one call does. The
  outgoing list of \<open>from_node\<close> grows by at most one entry whatever \<open>N\<close> is, and it is
  the old list when that already held the key of \<open>to_node\<close>, so no duplicate is appended.
\<close>

theorem add_edge_idempotent:
  "0 < N \<Longrightarrow>
     ((\<lambda>g. add_edge g from_node to_node) ^^ N) g = add_edge g from_node to_node \<and>
     length (outgoing (((\<lambda>g. add_edge g from_node to_node) ^^ N) g) (key from_node))
       \<le> length (outgoing g (key from_node)) + 1 \<and>
     outgoing (((\<lambda>g. add_edge g from_node to_node) ^^ N) g) (key from_node) =
       (if key to_node \<in> set (outgoing g (key from_node)) then outgoing g (key from_node)
        else outgoing g (key from_node) @ [key to_node])"
proof -
  assume "0 < N"
  then have "((\<lambda>g. add_edge g from_node to_node) ^^ N) g = add_edge g from_node to_node"
  proof (induction N)
    case 0
    then show ?case by simp
  next
    case (Suc N)
    then show ?case by (cases "N = 0") (simp_all add: add_edge_twice)
  qed
  then show ?thesis by (simp add: outgoing_add_edge)
qed

theorem add_edge_idempotent_witness:
  "(0::nat) < 3 \<and>
   ((\<lambda>g. add_edge g T1 L1) ^^ 3) Graph_init = add_edge Graph_init T1 L1 \<and>
   length (outgoing (((\<lambda>g. add_edge g T1 L1) ^^ 3) Graph_init) (key T1))
     \<le> length (outgoing Graph_init (key T1)) + 1 \<and>
   outgoing (((\<lambda>g. add_edge g T1 L1) ^^ 3) Graph_init) (key T1) = [''Lock 0x0000000000a1'']"
proof -
  have h: "(0::nat) < 3" by simp
  have o: "outgoing (add_edge Graph_init T1 L1) (key T1) = [''Lock 0x0000000000a1'']"
    by code_simp
  have e: "outgoing Graph_init (key T1) = []"
    by (simp add: outgoing_def Graph_init_def)
  from add_edge_idempotent[OF h, of T1 L1 Graph_init] o e show ?thesis
    by simp
qed

section \<open>Node identity\<close>

lemma Node_eq_key: "Node_eq n1 n2 \<Longrightarrow> key n1 = key n2"
  by (cases n1; cases n2) (simp_all add: Thread_key_def Lock_key_def)

lemma add_node_same_key: "key n1 = key n2 \<Longrightarrow> add_node (add_node g n1) n2 = add_node g n1"
  using add_node_id[of "add_node g n1" n2] registered_add_node_self[of g n1] by simp

lemma find_node_fresh:
  "find_node g n = None \<Longrightarrow> find_node (add_node g n) n = Some \<lparr>node = n, next_nodes = []\<rparr>"
  by (simp add: find_node_def map_of_add_node)

lemma add_edge_from_registered:
  "key n1 = key n2 \<Longrightarrow> map_of g (key n1) \<noteq> None \<Longrightarrow> add_edge g n2 m = add_edge g n1 m"
  by (simp add: add_edge_alt add_node_id Let_def)

lemma add_edge_to_registered:
  "key n1 = key n2 \<Longrightarrow> map_of g (key n1) \<noteq> None \<Longrightarrow> add_edge g m n2 = add_edge g m n1"
proof -
  assume k: "key n1 = key n2" and r: "map_of g (key n1) \<noteq> None"
  then have "map_of (add_node g m) (key n1) \<noteq> None" by (rule_tac registered_add_node)
  with k have "add_node (add_node g m) n2 = add_node (add_node g m) n1"
    by (simp add: add_node_id)
  then show ?thesis by (simp add: add_edge_alt k Let_def)
qed

lemma registered_add_edge:
  "map_of (add_edge g f t) k \<noteq> None \<longleftrightarrow> k = key f \<or> k = key t \<or> map_of g k \<noteq> None"
  by (auto simp: add_edge_alt Let_def map_of_append_next map_of_add_node split: option.splits)

lemma registered_add_edge_from: "map_of (add_edge g f t) (key f) \<noteq> None"
  unfolding registered_add_edge by blast

lemma registered_add_edge_to: "map_of (add_edge g f t) (key t) \<noteq> None"
  unfolding registered_add_edge by blast

lemma map_fst_add_edge: "map fst (add_edge g f t) = map fst (add_node (add_node g f) t)"
  by (simp add: add_edge_alt Let_def map_fst_append_next)

lemma node_append_next:
  "map_option node (map_of (append_next g k v) k') = map_option node (map_of g k')"
  by (cases "map_of g k'") (simp_all add: map_of_append_next)

lemma node_add_edge:
  "map_option node (map_of (add_edge g f t) k) =
     map_option node (map_of (add_node (add_node g f) t) k)"
  by (simp add: add_edge_alt Let_def node_append_next)

lemma length_add_node:
  "length (add_node g n) = (if find_node g n = None then length g + 1 else length g)"
  by (simp add: add_node_def)

lemma length_add_edge_registered:
  "map_of g (key f) \<noteq> None \<Longrightarrow> map_of g (key t) \<noteq> None \<Longrightarrow> length (add_edge g f t) = length g"
proof -
  assume "map_of g (key f) \<noteq> None" "map_of g (key t) \<noteq> None"
  then have "add_node (add_node g f) t = g" by (simp add: add_node_id)
  then have "map fst (add_edge g f t) = map fst g" by (simp add: map_fst_add_edge)
  then show ?thesis by (metis length_map)
qed

lemma has_edge_add_edge: "has_edge (add_edge g f t) (key f) (key t)"
  by (simp add: has_edge_def outgoing_add_edge)

lemma map_of_add_node_registered:
  "map_of g k \<noteq> None \<Longrightarrow> map_of (add_node g n) k = map_of g k"
  by (cases "map_of g k") (simp_all add: map_of_add_node)

lemma length_add_edge:
  "length (add_edge g f t) = length (add_node (add_node g f) t)"
  using map_fst_add_edge[of g f t] by (metis length_map)

lemma length_add_edge_from_registered:
  "map_of g (key f) \<noteq> None \<Longrightarrow>
     length (add_edge g f t) = length g + (if find_node g t = None then 1 else 0)"
  by (simp add: length_add_edge add_node_id length_add_node)

lemma length_add_edge_to_registered:
  "map_of g (key t) \<noteq> None \<Longrightarrow>
     length (add_edge g f t) = length g + (if find_node g f = None then 1 else 0)"
proof -
  assume "map_of g (key t) \<noteq> None"
  then have "map_of (add_node g f) (key t) \<noteq> None" by (rule registered_add_node)
  then have "add_node (add_node g f) t = add_node g f" by (rule add_node_id)
  then show ?thesis by (simp add: length_add_edge length_add_node)
qed

lemma stored_add_edge_registered:
  assumes "map_of g k \<noteq> None"
  shows "map_option node (map_of (add_edge g f t) k) = map_option node (map_of g k)"
proof -
  from assms have "map_of (add_node g f) k \<noteq> None" by (rule registered_add_node)
  then have "map_of (add_node (add_node g f) t) k = map_of (add_node g f) k"
    by (rule map_of_add_node_registered)
  also have "\<dots> = map_of g k" using assms by (rule map_of_add_node_registered)
  finally show ?thesis by (simp add: node_add_edge)
qed

lemma stored_add_edge_from_fresh:
  "find_node g f = None \<Longrightarrow> map_option node (map_of (add_edge g f t) (key f)) = Some f"
proof -
  assume "find_node g f = None"
  then have "map_of (add_node g f) (key f) = Some \<lparr>node = f, next_nodes = []\<rparr>"
    by (simp add: find_node_def map_of_add_node)
  moreover then have "map_of (add_node (add_node g f) t) (key f) = map_of (add_node g f) (key f)"
    by (intro map_of_add_node_registered) simp
  ultimately show ?thesis by (simp add: node_add_edge)
qed

lemma stored_add_edge_to_fresh:
  "find_node (add_node g f) t = None \<Longrightarrow>
     map_option node (map_of (add_edge g f t) (key t)) = Some t"
  by (simp add: node_add_edge find_node_def map_of_add_node[of "add_node g f" t])

text \<open>
  C9. Node identity is key equality. Two \<open>Thread\<close> objects with the same \<open>thread_id\<close>, or
  two \<open>Lock\<close> objects with the same \<open>addr\<close>, have the same key. Adding the second with
  \<open>add_node\<close> changes nothing, so the node count does not grow and the entry still
  holds the node registered first. \<open>add_edge\<close> registers its endpoints, and after the
  first object was an endpoint of an edge, in either position, the second one as an
  endpoint of another edge, in either position, stands for the same node: the graph is the
  one that the first object gives, the new edge leaves or enters the node of the first,
  the node count grows by the other endpoint only, if that is new, and the entry still
  holds the first object.
\<close>

theorem node_identity_by_key:
  assumes "Node_eq n1 n2"
  shows "key n1 = key n2 \<and>
         add_node (add_node g n1) n2 = add_node g n1 \<and>
         length (add_node (add_node g n1) n2) = length (add_node g n1) \<and>
         find_node (add_node g n1) n2 = find_node (add_node g n1) n1 \<and>
         (find_node g n1 = None \<longrightarrow>
            find_node (add_node (add_node g n1) n2) n2 = Some \<lparr>node = n1, next_nodes = []\<rparr>) \<and>
         add_edge (add_edge g n1 m) n2 m' = add_edge (add_edge g n1 m) n1 m' \<and>
         add_edge (add_edge g m n1) m' n2 = add_edge (add_edge g m n1) m' n1 \<and>
         add_edge (add_edge g m n1) n2 m' = add_edge (add_edge g m n1) n1 m' \<and>
         add_edge (add_edge g n1 m) m' n2 = add_edge (add_edge g n1 m) m' n1 \<and>
         find_node (add_edge g m n1) n2 \<noteq> None \<and>
         find_node (add_edge g n1 m) n2 \<noteq> None \<and>
         has_edge (add_edge (add_edge g m n1) n2 m') (key n1) (key m') \<and>
         has_edge (add_edge (add_edge g n1 m) m' n2) (key m') (key n1) \<and>
         length (add_edge (add_edge g m n1) n2 m') =
           length (add_edge g m n1) + (if find_node (add_edge g m n1) m' = None then 1 else 0) \<and>
         length (add_edge (add_edge g n1 m) m' n2) =
           length (add_edge g n1 m) + (if find_node (add_edge g n1 m) m' = None then 1 else 0) \<and>
         length (add_edge (add_edge g m n1) n2 m) = length (add_edge g m n1) \<and>
         (find_node (add_node g m) n1 = None \<longrightarrow>
            map_option node (find_node (add_edge (add_edge g m n1) n2 m') n2) = Some n1) \<and>
         (find_node g n1 = None \<longrightarrow>
            map_option node (find_node (add_edge (add_edge g n1 m) m' n2) n2) = Some n1)"
proof -
  from assms have k: "key n1 = key n2" by (rule Node_eq_key)
  have a: "add_node (add_node g n1) n2 = add_node g n1" using k by (rule add_node_same_key)
  have f: "find_node (add_node g n1) n2 = find_node (add_node g n1) n1"
    using k by (simp add: find_node_def)
  have fr: "find_node g n1 = None \<longrightarrow>
      find_node (add_node (add_node g n1) n2) n2 = Some \<lparr>node = n1, next_nodes = []\<rparr>"
    using a f by (simp add: find_node_fresh)
  have e1: "add_edge (add_edge g n1 m) n2 m' = add_edge (add_edge g n1 m) n1 m'"
    using k registered_add_edge_from by (rule add_edge_from_registered)
  have e2: "add_edge (add_edge g m n1) m' n2 = add_edge (add_edge g m n1) m' n1"
    using k registered_add_edge_to by (rule add_edge_to_registered)
  have e3: "add_edge (add_edge g m n1) n2 m' = add_edge (add_edge g m n1) n1 m'"
    using k registered_add_edge_to by (rule add_edge_from_registered)
  have e4: "add_edge (add_edge g n1 m) m' n2 = add_edge (add_edge g n1 m) m' n1"
    using k registered_add_edge_from by (rule add_edge_to_registered)
  have r1: "find_node (add_edge g m n1) n2 \<noteq> None"
    using registered_add_edge_to[of g m n1] by (simp add: find_node_def k[symmetric])
  have r2: "find_node (add_edge g n1 m) n2 \<noteq> None"
    using registered_add_edge_from[of g n1 m] by (simp add: find_node_def k[symmetric])
  have h1: "has_edge (add_edge (add_edge g m n1) n2 m') (key n1) (key m')"
    unfolding k by (rule has_edge_add_edge)
  have h2: "has_edge (add_edge (add_edge g n1 m) m' n2) (key m') (key n1)"
    unfolding k by (rule has_edge_add_edge)
  have l1: "length (add_edge (add_edge g m n1) n2 m') =
      length (add_edge g m n1) + (if find_node (add_edge g m n1) m' = None then 1 else 0)"
    using r1 by (intro length_add_edge_from_registered) (simp add: find_node_def)
  have l2: "length (add_edge (add_edge g n1 m) m' n2) =
      length (add_edge g n1 m) + (if find_node (add_edge g n1 m) m' = None then 1 else 0)"
    using r2 by (intro length_add_edge_to_registered) (simp add: find_node_def)
  have l3: "length (add_edge (add_edge g m n1) n2 m) = length (add_edge g m n1)"
    using r1 registered_add_edge_from[of g m n1]
    by (intro length_add_edge_registered) (simp_all add: find_node_def)
  have s1: "find_node (add_node g m) n1 = None \<longrightarrow>
      map_option node (find_node (add_edge (add_edge g m n1) n2 m') n2) = Some n1"
  proof
    assume "find_node (add_node g m) n1 = None"
    from stored_add_edge_to_fresh[OF this]
    have "map_option node (map_of (add_edge g m n1) (key n1)) = Some n1" .
    with stored_add_edge_registered[OF registered_add_edge_to, of g m n1 n2 m']
    show "map_option node (find_node (add_edge (add_edge g m n1) n2 m') n2) = Some n1"
      by (simp add: find_node_def k[symmetric])
  qed
  have s2: "find_node g n1 = None \<longrightarrow>
      map_option node (find_node (add_edge (add_edge g n1 m) m' n2) n2) = Some n1"
  proof
    assume "find_node g n1 = None"
    from stored_add_edge_from_fresh[OF this]
    have "map_option node (map_of (add_edge g n1 m) (key n1)) = Some n1" .
    with stored_add_edge_registered[OF registered_add_edge_from, of g n1 m m' n2]
    show "map_option node (find_node (add_edge (add_edge g n1 m) m' n2) n2) = Some n1"
      by (simp add: find_node_def k[symmetric])
  qed
  from k a f fr e1 e2 e3 e4 r1 r2 h1 h2 l1 l2 l3 s1 s2 show ?thesis
    by (intro conjI) simp_all
qed

theorem node_identity_by_key_witness:
  "Node_eq T1 (ThreadNode \<lparr>thread_id = 1, lwpid = 7, name = ''other''\<rparr>) \<and>
   key T1 = key (ThreadNode \<lparr>thread_id = 1, lwpid = 7, name = ''other''\<rparr>) \<and>
   length (add_node (add_node Graph_init T1)
             (ThreadNode \<lparr>thread_id = 1, lwpid = 7, name = ''other''\<rparr>)) = 1 \<and>
   find_node Graph_init T1 = None \<and>
   find_node (add_node (add_node Graph_init T1)
                (ThreadNode \<lparr>thread_id = 1, lwpid = 7, name = ''other''\<rparr>))
     (ThreadNode \<lparr>thread_id = 1, lwpid = 7, name = ''other''\<rparr>)
     = Some \<lparr>node = T1, next_nodes = []\<rparr> \<and>
   Node_eq L1 (LockNode \<lparr>addr = 161, resource = ''other''\<rparr>) \<and>
   add_edge (add_edge Graph_init T1 L1) (LockNode \<lparr>addr = 161, resource = ''other''\<rparr>) T2
     = chain_graph \<and>
   map fst chain_graph =
     [''Thread 0x000000000001'', ''Lock 0x0000000000a1'', ''Thread 0x000000000002''] \<and>
   length (add_edge (add_edge Graph_init T1 L1)
             (LockNode \<lparr>addr = 161, resource = ''other''\<rparr>) T2) = 3 \<and>
   has_edge (add_edge (add_edge Graph_init T1 L1)
               (LockNode \<lparr>addr = 161, resource = ''other''\<rparr>) T2) (key L1) (key T2) \<and>
   find_node (add_node Graph_init T1) L1 = None \<and>
   map_option node
     (find_node (add_edge (add_edge Graph_init T1 L1)
                   (LockNode \<lparr>addr = 161, resource = ''other''\<rparr>) T2)
        (LockNode \<lparr>addr = 161, resource = ''other''\<rparr>)) = Some L1"
proof -
  have h: "Node_eq T1 (ThreadNode \<lparr>thread_id = 1, lwpid = 7, name = ''other''\<rparr>)"
    by (simp add: T1_def)
  have n: "find_node Graph_init T1 = None"
    by (simp add: find_node_def Graph_init_def)
  have l: "length (add_node Graph_init T1) = 1"
    by (simp add: add_node_def find_node_def Graph_init_def)
  note t = node_identity_by_key[OF h, of Graph_init L1 L2]
  from t have k: "key T1 = key (ThreadNode \<lparr>thread_id = 1, lwpid = 7, name = ''other''\<rparr>)"
    by (rule conjunct1)
  from t have a: "add_node (add_node Graph_init T1)
      (ThreadNode \<lparr>thread_id = 1, lwpid = 7, name = ''other''\<rparr>) = add_node Graph_init T1"
    by blast
  from t n have f: "find_node (add_node (add_node Graph_init T1)
                (ThreadNode \<lparr>thread_id = 1, lwpid = 7, name = ''other''\<rparr>))
     (ThreadNode \<lparr>thread_id = 1, lwpid = 7, name = ''other''\<rparr>)
     = Some \<lparr>node = T1, next_nodes = []\<rparr>"
    by blast
  from a l have l': "length (add_node (add_node Graph_init T1)
             (ThreadNode \<lparr>thread_id = 1, lwpid = 7, name = ''other''\<rparr>)) = 1"
    by simp
  have h2: "Node_eq L1 (LockNode \<lparr>addr = 161, resource = ''other''\<rparr>)"
    by (simp add: L1_def)
  have n2: "find_node (add_node Graph_init T1) L1 = None"
    by code_simp
  have m: "map fst chain_graph =
      [''Thread 0x000000000001'', ''Lock 0x0000000000a1'', ''Thread 0x000000000002'']"
    by code_simp
  have t2n: "find_node (add_edge Graph_init T1 L1) T2 = None"
    by code_simp
  have l1: "length (add_edge Graph_init T1 L1) = 2"
    by code_simp
  note u = node_identity_by_key[OF h2, of Graph_init T1 T2]
  from u have e: "add_edge (add_edge Graph_init T1 L1)
      (LockNode \<lparr>addr = 161, resource = ''other''\<rparr>) T2 = chain_graph"
    unfolding chain_graph_def by blast
  from u have "length (add_edge (add_edge Graph_init T1 L1)
      (LockNode \<lparr>addr = 161, resource = ''other''\<rparr>) T2) =
      length (add_edge Graph_init T1 L1) +
        (if find_node (add_edge Graph_init T1 L1) T2 = None then 1 else 0)"
    by blast
  then have len: "length (add_edge (add_edge Graph_init T1 L1)
      (LockNode \<lparr>addr = 161, resource = ''other''\<rparr>) T2) = 3"
    unfolding t2n l1 by simp
  from u have he: "has_edge (add_edge (add_edge Graph_init T1 L1)
      (LockNode \<lparr>addr = 161, resource = ''other''\<rparr>) T2) (key L1) (key T2)"
    by blast
  from u n2 have st: "map_option node
     (find_node (add_edge (add_edge Graph_init T1 L1)
                   (LockNode \<lparr>addr = 161, resource = ''other''\<rparr>) T2)
        (LockNode \<lparr>addr = 161, resource = ''other''\<rparr>)) = Some L1"
    by blast
  from h k l' n f h2 e m len he n2 st show ?thesis by blast
qed

section \<open>The invariant of the graph and pruning\<close>

lemma dict_lookup: "distinct (map fst g) \<Longrightarrow> (k, e) \<in> set g \<longleftrightarrow> map_of g k = Some e"
  using map_of_SomeD[of g k e] map_of_is_SomeI[of g k e] by blast

lemma find_from_node_iff:
  "find_from_node g from_node \<noteq> None \<longleftrightarrow>
     (\<exists>(k, e) \<in> set g. key (node from_node) \<in> set (next_nodes e))"
  by (auto simp: find_from_node_def find_None_iff)

lemma dict_ok_add_node: "dict_ok g \<Longrightarrow> dict_ok (add_node g n)"
proof (cases "find_node g n = None")
  case True
  assume d: "dict_ok g"
  from True have "key n \<notin> set (map fst g)"
    by (simp add: find_node_def map_of_eq_None_iff)
  with d have "dict_ok (g @ [(key n, \<lparr>node = n, next_nodes = []\<rparr>)])"
    by (simp add: dict_ok_def)
  with True show ?thesis by (simp add: add_node_def)
next
  case False
  assume "dict_ok g"
  with False show ?thesis by (auto simp: add_node_def)
qed

lemma edges_ok_append_entry:
  "edges_ok g \<Longrightarrow> edges_ok (g @ [(k, \<lparr>node = n, next_nodes = []\<rparr>)])"
  unfolding edges_ok_def by fastforce

lemma edges_ok_add_node: "edges_ok g \<Longrightarrow> edges_ok (add_node g n)"
  by (simp add: add_node_def edges_ok_append_entry)

lemma set_append_next:
  "(k', e') \<in> set (append_next g k v) \<Longrightarrow>
     \<exists>e. (k', e) \<in> set g \<and> e' = (if k' = k then e\<lparr>next_nodes := next_nodes e @ [v]\<rparr> else e)"
  by (induction g) (auto simp: append_next_def split: if_splits)

lemma dict_ok_append_next: "dict_ok g \<Longrightarrow> dict_ok (append_next g k v)"
  unfolding dict_ok_def map_fst_append_next
proof (intro conjI ballI, goal_cases)
  case 1 then show ?case by simp
next
  case (2 x)
  obtain k' e' where x: "x = (k', e')" by (cases x)
  from set_append_next[of k' e' g k v] 2 x obtain e where "(k', e) \<in> set g"
    "e' = (if k' = k then e\<lparr>next_nodes := next_nodes e @ [v]\<rparr> else e)" by blast
  with 2(1) x show ?case by auto
qed

lemma edges_okI:
  "(\<And>k e. (k, e) \<in> set g \<Longrightarrow> set (next_nodes e) \<subseteq> set (map fst g) \<and> distinct (next_nodes e))
     \<Longrightarrow> edges_ok g"
  unfolding edges_ok_def by auto

lemma edges_okD:
  "edges_ok g \<Longrightarrow> (k, e) \<in> set g \<Longrightarrow>
     set (next_nodes e) \<subseteq> set (map fst g) \<and> distinct (next_nodes e)"
  unfolding edges_ok_def by (drule bspec[where x = "(k, e)"]) simp_all

lemma edges_ok_append_next:
  assumes "distinct (map fst g)" "edges_ok g" "v \<in> set (map fst g)" "v \<notin> set (outgoing g k)"
  shows "edges_ok (append_next g k v)"
proof (rule edges_okI)
  fix k' e' assume m: "(k', e') \<in> set (append_next g k v)"
  from set_append_next[OF m] obtain e where e: "(k', e) \<in> set g"
    and e': "e' = (if k' = k then e\<lparr>next_nodes := next_nodes e @ [v]\<rparr> else e)" by blast
  from edges_okD[OF assms(2) e]
  have ok: "set (next_nodes e) \<subseteq> set (map fst g)" "distinct (next_nodes e)"
    by blast+
  from e dict_lookup[OF assms(1)] have "map_of g k' = Some e" by blast
  then have o: "outgoing g k' = next_nodes e" by (simp add: outgoing_def)
  have 1: "set (next_nodes e') \<subseteq> set (map fst (append_next g k v))"
  proof (cases "k' = k")
    case True
    with e' have "next_nodes e' = next_nodes e @ [v]" by simp
    with ok(1) assms(3) show ?thesis by (simp add: map_fst_append_next)
  next
    case False
    with e' ok(1) show ?thesis by (simp add: map_fst_append_next)
  qed
  have 2: "distinct (next_nodes e')"
  proof (cases "k' = k")
    case True
    with e' have "next_nodes e' = next_nodes e @ [v]" by simp
    with ok(2) assms(4) o True show ?thesis by simp
  next
    case False
    with e' ok(2) show ?thesis by simp
  qed
  from 1 2 show "set (next_nodes e') \<subseteq> set (map fst (append_next g k v)) \<and> distinct (next_nodes e')"
    by blast
qed

lemma graph_inv_add_node: "graph_inv g \<Longrightarrow> graph_inv (add_node g n)"
  by (simp add: graph_inv_def dict_ok_add_node edges_ok_add_node)

lemma registered_iff: "map_of g k \<noteq> None \<longleftrightarrow> k \<in> set (map fst g)"
  by (simp add: map_of_eq_None_iff)

lemma graph_inv_add_edge: "graph_inv g \<Longrightarrow> graph_inv (add_edge g f t)"
proof -
  assume "graph_inv g"
  then have g2: "graph_inv (add_node (add_node g f) t)" by (simp add: graph_inv_add_node)
  have "key t \<in> set (map fst (add_node (add_node g f) t))"
    using registered_add_node_self[of "add_node g f" t] unfolding registered_iff .
  with g2 have "graph_inv (append_next (add_node (add_node g f) t) (key f) (key t))"
    if "key t \<notin> set (outgoing (add_node (add_node g f) t) (key f))"
    unfolding graph_inv_def using that
    by (intro conjI dict_ok_append_next edges_ok_append_next) (simp_all add: dict_ok_def)
  with g2 show ?thesis
    by (simp add: add_edge_alt Let_def)
qed

lemma dict_ok_filter: "dict_ok g \<Longrightarrow> dict_ok (filter P g)"
  by (auto simp: dict_ok_def distinct_map_filter)

lemma graph_inv_remove: "graph_inv g \<Longrightarrow> graph_inv (remove_nodes_without_edge g)"
proof -
  assume inv: "graph_inv g"
  then have d: "dict_ok g" and eo: "edges_ok g" by (simp_all add: graph_inv_def)
  have "edges_ok (remove_nodes_without_edge g)"
    unfolding edges_ok_def
  proof (clarify, intro conjI subsetI)
    fix k e assume m: "(k, e) \<in> set (remove_nodes_without_edge g)"
    then have in_g: "(k, e) \<in> set g" by (simp add: remove_nodes_without_edge_def)
    with eo show "distinct (next_nodes e)" by (auto simp: edges_ok_def)
    fix v assume v: "v \<in> set (next_nodes e)"
    with in_g eo have "v \<in> set (map fst g)" by (auto simp: edges_ok_def)
    then obtain e' where e': "(v, e') \<in> set g" by auto
    with d have "key (node e') = v" by (auto simp: dict_ok_def)
    with v in_g have "find_from_node g e' \<noteq> None"
      unfolding find_from_node_iff by blast
    with e' have "(v, e') \<in> set (remove_nodes_without_edge g)"
      by (simp add: remove_nodes_without_edge_def)
    then show "v \<in> set (map fst (remove_nodes_without_edge g))" by force
  qed
  with d show ?thesis by (simp add: graph_inv_def remove_nodes_without_edge_def dict_ok_filter)
qed

lemma graph_inv_init: "graph_inv Graph_init"
  by (simp add: graph_inv_def dict_ok_def edges_ok_def Graph_init_def)

lemma has_edge_iff:
  "dict_ok g \<Longrightarrow> has_edge g u v \<longleftrightarrow> (\<exists>e. (u, e) \<in> set g \<and> v \<in> set (next_nodes e))"
proof -
  assume "dict_ok g"
  then have d: "distinct (map fst g)" by (simp add: dict_ok_def)
  show ?thesis
  proof
    assume "has_edge g u v"
    then obtain e where "map_of g u = Some e" "v \<in> set (next_nodes e)"
      by (cases "map_of g u") (auto simp: has_edge_def outgoing_def)
    with dict_lookup[OF d] show "\<exists>e. (u, e) \<in> set g \<and> v \<in> set (next_nodes e)" by blast
  next
    assume "\<exists>e. (u, e) \<in> set g \<and> v \<in> set (next_nodes e)"
    then obtain e where "(u, e) \<in> set g" and v: "v \<in> set (next_nodes e)" by blast
    with dict_lookup[OF d] have "map_of g u = Some e" by blast
    with v show "has_edge g u v" by (simp add: has_edge_def outgoing_def)
  qed
qed

lemma keep_iff:
  assumes "dict_ok g" "(k, e) \<in> set g"
  shows "(next_nodes e \<noteq> [] \<or> find_from_node g e \<noteq> None) \<longleftrightarrow>
         ((\<exists>v. has_edge g k v) \<or> (\<exists>u. has_edge g u k))"
proof -
  from assms have ke: "key (node e) = k" by (auto simp: dict_ok_def)
  have out: "next_nodes e \<noteq> [] \<longleftrightarrow> (\<exists>v. has_edge g k v)"
  proof
    assume "next_nodes e \<noteq> []"
    then obtain v where "v \<in> set (next_nodes e)" by (cases "next_nodes e") auto
    with assms show "\<exists>v. has_edge g k v" unfolding has_edge_iff[OF assms(1)] by blast
  next
    assume "\<exists>v. has_edge g k v"
    then obtain v e' where e': "(k, e') \<in> set g" "v \<in> set (next_nodes e')"
      unfolding has_edge_iff[OF assms(1)] by blast
    from assms(1) have "distinct (map fst g)" by (simp add: dict_ok_def)
    from dict_lookup[OF this] e'(1) assms(2) have "e' = e" by (metis option.inject)
    with e'(2) show "next_nodes e \<noteq> []" by auto
  qed
  have inc: "find_from_node g e \<noteq> None \<longleftrightarrow> (\<exists>u. has_edge g u k)"
    unfolding find_from_node_iff ke has_edge_iff[OF assms(1)] by auto
  from out inc show ?thesis by blast
qed

lemma remove_nodes_without_edge_filter:
  assumes "dict_ok g"
  shows "remove_nodes_without_edge g =
           filter (\<lambda>(k, e). (\<exists>v. has_edge g k v) \<or> (\<exists>u. has_edge g u k)) g"
  unfolding remove_nodes_without_edge_def
proof (rule filter_cong[OF refl])
  fix x assume x: "x \<in> set g"
  obtain k e where xe: "x = (k, e)" by (cases x)
  from keep_iff[OF assms, of k e] x xe
  show "(case x of (k, e) \<Rightarrow> next_nodes e \<noteq> [] \<or> find_from_node g e \<noteq> None) =
        (case x of (k, e) \<Rightarrow> (\<exists>v. has_edge g k v) \<or> (\<exists>u. has_edge g u k))"
    by simp
qed

lemma has_edge_remove:
  assumes "dict_ok g"
  shows "has_edge (remove_nodes_without_edge g) u v \<longleftrightarrow> has_edge g u v"
proof -
  have d': "dict_ok (remove_nodes_without_edge g)"
    using assms by (simp add: remove_nodes_without_edge_def dict_ok_filter)
  show ?thesis
    unfolding has_edge_iff[OF d'] has_edge_iff[OF assms]
    by (auto simp: remove_nodes_without_edge_def)
qed

text \<open>
  C6. The structural invariant is kept by every operation on the graph. For a graph in
  which no key is registered twice, every entry is stored under the key of its node,
  every key of an outgoing list is registered and no outgoing list holds a key twice,
  the same is true after \<open>add_node\<close>, after \<open>add_edge\<close> and after
  \<open>remove_nodes_without_edge\<close>; and it is true of the empty graph.
\<close>

theorem graph_inv_preserved:
  assumes "graph_inv g"
  shows "graph_inv Graph_init \<and>
         graph_inv (add_node g n) \<and>
         graph_inv (add_edge g from_node to_node) \<and>
         graph_inv (remove_nodes_without_edge g) \<and>
         (\<forall>(k, e) \<in> set (add_edge g from_node to_node).
            set (next_nodes e) \<subseteq> set (map fst (add_edge g from_node to_node)) \<and>
            distinct (next_nodes e)) \<and>
         (\<forall>(k, e) \<in> set (remove_nodes_without_edge g).
            set (next_nodes e) \<subseteq> set (map fst (remove_nodes_without_edge g)) \<and>
            distinct (next_nodes e))"
proof -
  have a: "graph_inv (add_edge g from_node to_node)" using assms by (rule graph_inv_add_edge)
  have r: "graph_inv (remove_nodes_without_edge g)" using assms by (rule graph_inv_remove)
  from a have a': "edges_ok (add_edge g from_node to_node)" by (simp add: graph_inv_def)
  from r have r': "edges_ok (remove_nodes_without_edge g)" by (simp add: graph_inv_def)
  from a r a'[unfolded edges_ok_def] r'[unfolded edges_ok_def] graph_inv_init
    graph_inv_add_node[OF assms, of n]
  show ?thesis by blast
qed

theorem graph_inv_preserved_witness:
  "graph_inv idle_graph \<and>
   graph_inv (add_node idle_graph L2) \<and>
   graph_inv (add_edge idle_graph T2 L1) \<and>
   graph_inv (remove_nodes_without_edge idle_graph) \<and>
   map fst (remove_nodes_without_edge idle_graph) = [''Thread 0x000000000001'', ''Lock 0x0000000000a1'']"
proof -
  have h: "graph_inv idle_graph"
    unfolding idle_graph_def
    by (intro graph_inv_add_node graph_inv_add_edge graph_inv_init)
  have m: "map fst (remove_nodes_without_edge idle_graph) =
      [''Thread 0x000000000001'', ''Lock 0x0000000000a1'']"
    by code_simp
  from graph_inv_preserved[OF h, of L2 T2 L1] h m show ?thesis by blast
qed

text \<open>
  C3. \<open>remove_nodes_without_edge\<close> keeps exactly the nodes that have an outgoing or an
  incoming edge in the graph as it was before the call: the new mapping is the old one
  restricted to these nodes, entries and order unchanged, so every node that remains has
  such an edge and every node that was removed has none. The edges among the nodes that
  remain are the edges of the old graph.
\<close>

theorem remove_nodes_without_edge_correct:
  assumes "dict_ok g"
  shows "remove_nodes_without_edge g =
           filter (\<lambda>(k, e). (\<exists>v. has_edge g k v) \<or> (\<exists>u. has_edge g u k)) g \<and>
         (\<forall>k \<in> set (map fst (remove_nodes_without_edge g)).
            (\<exists>v. has_edge g k v) \<or> (\<exists>u. has_edge g u k)) \<and>
         (\<forall>k \<in> set (map fst g) - set (map fst (remove_nodes_without_edge g)).
            (\<forall>v. \<not> has_edge g k v) \<and> (\<forall>u. \<not> has_edge g u k)) \<and>
         (\<forall>u v. has_edge (remove_nodes_without_edge g) u v \<longleftrightarrow> has_edge g u v)"
proof -
  note f = remove_nodes_without_edge_filter[OF assms]
  have 1: "\<forall>k \<in> set (map fst (remove_nodes_without_edge g)).
            (\<exists>v. has_edge g k v) \<or> (\<exists>u. has_edge g u k)"
    unfolding f by auto
  have 2: "\<forall>k \<in> set (map fst g) - set (map fst (remove_nodes_without_edge g)).
            (\<forall>v. \<not> has_edge g k v) \<and> (\<forall>u. \<not> has_edge g u k)"
    unfolding f by force
  from f 1 2 has_edge_remove[OF assms] show ?thesis by blast
qed

theorem remove_nodes_without_edge_correct_witness:
  "dict_ok idle_graph \<and>
   map fst idle_graph = [''Thread 0x000000000001'', ''Lock 0x0000000000a1'', ''Thread 0x000000000002''] \<and>
   map fst (remove_nodes_without_edge idle_graph) = [''Thread 0x000000000001'', ''Lock 0x0000000000a1''] \<and>
   remove_nodes_without_edge idle_graph =
     filter (\<lambda>(k, e). (\<exists>v. has_edge idle_graph k v) \<or> (\<exists>u. has_edge idle_graph u k)) idle_graph \<and>
   (\<forall>v. \<not> has_edge idle_graph ''Thread 0x000000000002'' v) \<and>
   (\<forall>u. \<not> has_edge idle_graph u ''Thread 0x000000000002'')"
proof -
  have h: "dict_ok idle_graph"
    by code_simp
  have m: "map fst idle_graph =
      [''Thread 0x000000000001'', ''Lock 0x0000000000a1'', ''Thread 0x000000000002'']"
    by code_simp
  have m': "map fst (remove_nodes_without_edge idle_graph) =
      [''Thread 0x000000000001'', ''Lock 0x0000000000a1'']"
    by code_simp
  note t = remove_nodes_without_edge_correct[OF h]
  from t have f: "remove_nodes_without_edge idle_graph =
     filter (\<lambda>(k, e). (\<exists>v. has_edge idle_graph k v) \<or> (\<exists>u. has_edge idle_graph u k)) idle_graph"
    by (rule conjunct1)
  from t have "\<forall>k \<in> set (map fst idle_graph) - set (map fst (remove_nodes_without_edge idle_graph)).
            (\<forall>v. \<not> has_edge idle_graph k v) \<and> (\<forall>u. \<not> has_edge idle_graph u k)"
    by blast
  then have r: "(\<forall>v. \<not> has_edge idle_graph ''Thread 0x000000000002'' v) \<and>
      (\<forall>u. \<not> has_edge idle_graph u ''Thread 0x000000000002'')"
    unfolding m m' by simp
  from h m m' f r show ?thesis by blast
qed

section \<open>Two concrete searches\<close>

lemma self_loop_graph:
  "add_edge (add_node Graph_init n) n n = [(key n, \<lparr>node = n, next_nodes = [key n]\<rparr>)]"
  by (simp add: add_edge_def add_node_def find_node_def Graph_init_def append_next_def)

text \<open>
  C10. A self-loop is a cycle of length one. In the graph built by registering a node
  \<open>n\<close> and calling \<open>add_edge(n, n)\<close>, \<open>detect_cycle\<close> returns the one-element list that
  holds the description of \<open>n\<close>, and \<open>remove_nodes_without_edge\<close> keeps \<open>n\<close>.
\<close>

theorem self_loop_detected:
  "detect_cycle (add_edge (add_node Graph_init n) n n) = Inr (Some [str n]) \<and>
   remove_nodes_without_edge (add_edge (add_node Graph_init n) n n)
     = add_edge (add_node Graph_init n) n n \<and>
   map fst (add_edge (add_node Graph_init n) n n) = [key n]"
  unfolding self_loop_graph
  by (simp add: detect_cycle_def cycle_path_def remove_nodes_without_edge_def)

theorem self_loop_detected_witness:
  "detect_cycle (add_edge (add_node Graph_init T1) T1 T1)
     = Inr (Some [''conn1 (Thread 0x000000000001 (LWP 101))'']) \<and>
   remove_nodes_without_edge (add_edge (add_node Graph_init T1) T1 T1)
     = add_edge (add_node Graph_init T1) T1 T1 \<and>
   map fst (add_edge (add_node Graph_init T1) T1 T1) = [''Thread 0x000000000001'']"
proof -
  have s: "str T1 = ''conn1 (Thread 0x000000000001 (LWP 101))''"
    by code_simp
  have k: "key T1 = ''Thread 0x000000000001''"
    by code_simp
  from self_loop_detected[of T1] show ?thesis
    unfolding s k .
qed

text \<open>
  C7. Scenario A: after \<open>add_edge\<close> for \<open>T1 -> L1\<close>, \<open>L1 -> T2\<close>, \<open>T2 -> L2\<close> and
  \<open>L2 -> T1\<close> the graph has four nodes and four edges, and \<open>detect_cycle\<close> returns the four
  descriptions in wait order: \<open>T1\<close>, \<open>L1\<close>, \<open>T2\<close>, \<open>L2\<close>.
\<close>

theorem scenario_A_cycle:
  "length scenario_A = 4 \<and>
   map fst scenario_A = [key T1, key L1, key T2, key L2] \<and>
   map (\<lambda>(k, e). next_nodes e) scenario_A = [[key L1], [key T2], [key L2], [key T1]] \<and>
   sum_list (map (\<lambda>(k, e). length (next_nodes e)) scenario_A) = 4 \<and>
   cycle_path scenario_A = Inr (Some [key T1, key L1, key T2, key L2]) \<and>
   detect_cycle scenario_A = Inr (Some [str T1, str L1, str T2, str L2])"
  by code_simp

section \<open>The search finds a cycle exactly when there is one\<close>

lemma walk_append_single:
  "walk g (P @ [k]) \<longleftrightarrow> walk g P \<and> (P = [] \<or> has_edge g (last P) k)"
  by (induction g P rule: walk.induct) auto

lemma walk_suffix: "walk g (pre @ c) \<Longrightarrow> walk g c"
proof (induction pre)
  case Nil
  then show ?case by simp
next
  case (Cons a pre)
  then show ?case by (cases "pre @ c") auto
qed

lemma dropWhile_cycle:
  assumes "n \<in> set P" "walk g P" "distinct P" "has_edge g (last P) n"
  shows "cycle_from g P (dropWhile (\<lambda>x. x \<noteq> n) P)"
proof -
  let ?c = "dropWhile (\<lambda>x. x \<noteq> n) P"
  from assms(1) have ne: "?c \<noteq> []" by (simp add: dropWhile_eq_Nil_conv)
  then have h: "hd ?c = n" using hd_dropWhile[of "\<lambda>x. x \<noteq> n" P] by simp
  have sp: "P = takeWhile (\<lambda>x. x \<noteq> n) P @ ?c" by simp
  with ne have l: "last ?c = last P" by (metis last_appendR)
  from sp have "P @ [] = takeWhile (\<lambda>x. x \<noteq> n) P @ ?c" by simp
  with assms ne h l show ?thesis unfolding cycle_from_def by (metis append_Nil2)
qed

lemma cycle_from_extend: "cycle_from g (P @ [n]) c \<Longrightarrow> cycle_from g P c"
  unfolding cycle_from_def by (metis append_Cons append_Nil append_assoc)

lemma dfs_sound:
  "walk g (P @ [k]) \<Longrightarrow> distinct (P @ [k]) \<Longrightarrow>
     depth_first_search g k V P = Inr (Some c, V') \<Longrightarrow> cycle_from g (P @ [k]) c"
  "P \<noteq> [] \<Longrightarrow> walk g P \<Longrightarrow> distinct P \<Longrightarrow> set ns \<subseteq> set (outgoing g (last P)) \<Longrightarrow>
     dfs_for g ns V P = Inr (Some c, V') \<Longrightarrow> cycle_from g P c"
proof (induction g k V P and g ns V P arbitrary: c V' and c V'
    rule: depth_first_search_dfs_for.induct)
  case (1 g k V P)
  from 1(4) obtain e where e: "map_of g k = Some e"
    by (cases "map_of g k") auto
  with 1(4) have r: "dfs_for g (next_nodes e) (insert k V) (P @ [k]) = Inr (Some c, V')" by simp
  have "set (next_nodes e) \<subseteq> set (outgoing g (last (P @ [k])))"
    using e by (simp add: outgoing_def)
  from 1(1)[OF e _ 1(2) 1(3) this r] show ?case by simp
next
  case (2 g V P)
  then show ?case by simp
next
  case (3 g n rest V P)
  from 3(7) have edge: "has_edge g (last P) n" and rest: "set rest \<subseteq> set (outgoing g (last P))"
    by (simp_all add: has_edge_def)
  show ?case
  proof (cases "n \<in> set P")
    case True
    with 3(8) have "c = dropWhile (\<lambda>x. x \<noteq> n) P" by simp
    with dropWhile_cycle[OF True 3(5) 3(6) edge] show ?thesis by simp
  next
    case nin: False
    show ?thesis
    proof (cases "n \<in> V")
      case True
      with nin 3(8) have "dfs_for g rest V P = Inr (Some c, V')" by simp
      from 3(3)[OF nin _ 3(4) 3(5) 3(6) rest this] True show ?thesis by simp
    next
      case nv: False
      have w: "walk g (P @ [n])" using 3(5) edge by (simp add: walk_append_single)
      have d: "distinct (P @ [n])" using 3(6) nin by simp
      show ?thesis
      proof (cases "depth_first_search g n V P")
        case (Inl err)
        with nin nv 3(8) show ?thesis by simp
      next
        case (Inr b)
        obtain x y where b: "b = (x, y)" by (cases b)
        show ?thesis
        proof (cases "x \<noteq> None \<and> x \<noteq> Some []")
          case True
          with nin nv 3(8) Inr b have "x = Some c" "y = V'" by simp_all
          with Inr b have "depth_first_search g n V P = Inr (Some c, V')" by simp
          from cycle_from_extend[OF 3(1)[OF nin nv w d this]] show ?thesis .
        next
          case False
          with nin nv 3(8) Inr b have "dfs_for g rest y P = Inr (Some c, V')" by auto
          from 3(2)[OF nin nv Inr b[symmetric] False 3(4) 3(5) 3(6) rest this] show ?thesis .
        qed
      qed
    qed
  qed
qed

lemma closed_reach:
  assumes "\<forall>u \<in> B. \<forall>v. has_edge g u v \<longrightarrow> v \<in> B" "(u, v) \<in> {(u, v). has_edge g u v}\<^sup>*" "u \<in> B"
  shows "v \<in> B"
  using assms(2,3)
proof (induction rule: rtrancl_induct)
  case base
  then show ?case .
next
  case (step y z)
  with assms(1) show ?case by blast
qed

lemma closed_acyclic_insert:
  assumes ca: "closed_acyclic g B" and k: "k \<notin> B"
    and succ: "\<forall>v. has_edge g k v \<longrightarrow> v \<in> B"
  shows "closed_acyclic g (insert k B)"
proof -
  from ca have cl: "\<forall>u \<in> B. \<forall>v. has_edge g u v \<longrightarrow> v \<in> B"
    and ac: "\<forall>u \<in> B. (u, u) \<notin> {(u, v). has_edge g u v}\<^sup>+"
    by (simp_all add: closed_acyclic_def)
  have "(k, k) \<notin> {(u, v). has_edge g u v}\<^sup>+"
  proof
    assume "(k, k) \<in> {(u, v). has_edge g u v}\<^sup>+"
    then obtain w where kw: "(k, w) \<in> {(u, v). has_edge g u v}"
      and wk: "(w, k) \<in> {(u, v). has_edge g u v}\<^sup>*"
      by (metis converse_tranclE rtrancl.rtrancl_refl trancl_into_rtrancl)
    from kw succ have "w \<in> B" by simp
    from closed_reach[OF cl wk this] k show False by simp
  qed
  with cl ac succ show ?thesis by (auto simp: closed_acyclic_def)
qed

lemma dropWhile_truthy:
  "n \<in> set P \<Longrightarrow> dropWhile (\<lambda>x. x \<noteq> n) P \<noteq> []"
  by (simp add: dropWhile_eq_Nil_conv)

lemma dfs_complete:
  "k \<notin> V \<Longrightarrow> set P \<subseteq> V \<Longrightarrow> closed_acyclic g (V - set P) \<Longrightarrow>
     depth_first_search g k V P = Inr (r, V') \<Longrightarrow> r = None \<or> r = Some [] \<Longrightarrow>
     insert k V \<subseteq> V' \<and> closed_acyclic g (V' - set P)"
  "set P \<subseteq> V \<Longrightarrow> closed_acyclic g (V - set P) \<Longrightarrow>
     dfs_for g ns V P = Inr (r, V') \<Longrightarrow> r = None \<or> r = Some [] \<Longrightarrow>
     V \<subseteq> V' \<and> set ns \<subseteq> V' - set P \<and> closed_acyclic g (V' - set P)"
proof (induction g k V P and g ns V P arbitrary: r V' and r V'
    rule: depth_first_search_dfs_for.induct)
  case (1 g k V P)
  from 1(5) obtain e where e: "map_of g k = Some e"
    by (cases "map_of g k") auto
  with 1(5) have r: "dfs_for g (next_nodes e) (insert k V) (P @ [k]) = Inr (r, V')" by simp
  have sub: "set (P @ [k]) \<subseteq> insert k V" using 1(3) by auto
  have "insert k V - set (P @ [k]) = V - set P" using 1(2) by auto
  with 1(4) have ca: "closed_acyclic g (insert k V - set (P @ [k]))" by simp
  from 1(1)[OF e sub ca r 1(6)]
  have v: "insert k V \<subseteq> V'" and out: "set (next_nodes e) \<subseteq> V' - set (P @ [k])"
    and ca': "closed_acyclic g (V' - set (P @ [k]))" by simp_all
  from 1(2) 1(3) have kP: "k \<notin> set P" by auto
  have kn: "k \<notin> V' - set (P @ [k])" by simp
  have "\<forall>v. has_edge g k v \<longrightarrow> v \<in> V' - set (P @ [k])"
    using out e by (auto simp: has_edge_def outgoing_def)
  from closed_acyclic_insert[OF ca' kn this]
  have "closed_acyclic g (insert k (V' - set (P @ [k])))" .
  moreover have "insert k (V' - set (P @ [k])) = V' - set P" using v kP by auto
  ultimately show ?case using v by simp
next
  case (2 g V P)
  then show ?case by simp
next
  case (3 g n rest V P)
  show ?case
  proof (cases "n \<in> set P")
    case True
    with 3(6) have "r = Some (dropWhile (\<lambda>x. x \<noteq> n) P)" by simp
    with 3(7) have "dropWhile (\<lambda>x. x \<noteq> n) P = []" by auto
    with dropWhile_truthy[OF True] show ?thesis by blast
  next
    case nin: False
    show ?thesis
    proof (cases "n \<in> V")
      case True
      with nin 3(6) have "dfs_for g rest V P = Inr (r, V')" by simp
      from 3(3)[OF nin _ 3(4) 3(5) this 3(7)] True nin show ?thesis by auto
    next
      case nv: False
      show ?thesis
      proof (cases "depth_first_search g n V P")
        case (Inl err)
        with nin nv 3(6) show ?thesis by simp
      next
        case (Inr b)
        obtain x y where b: "b = (x, y)" by (cases b)
        show ?thesis
        proof (cases "x \<noteq> None \<and> x \<noteq> Some []")
          case True
          with nin nv 3(6) Inr b have "r = x" by simp
          with True 3(7) show ?thesis by simp
        next
          case False
          then have f: "x = None \<or> x = Some []" by simp
          from Inr b have dx: "depth_first_search g n V P = Inr (x, y)" by simp
          from 3(1)[OF nin nv nv 3(4) 3(5) dx f]
          have ny: "insert n V \<subseteq> y" and cay: "closed_acyclic g (y - set P)" by simp_all
          from ny 3(4) have Py: "set P \<subseteq> y" by auto
          from False nin nv 3(6) Inr b have "dfs_for g rest y P = Inr (r, V')" by auto
          from 3(2)[OF nin nv Inr b[symmetric] False Py cay this 3(7)] ny nin
          show ?thesis by auto
        qed
      qed
    qed
  qed
qed

lemma dfs_no_error:
  "edges_ok g \<Longrightarrow> k \<in> set (map fst g) \<Longrightarrow> depth_first_search g k V P \<noteq> Inl err"
  "edges_ok g \<Longrightarrow> set ns \<subseteq> set (map fst g) \<Longrightarrow> dfs_for g ns V P \<noteq> Inl err"
proof (induction g k V P and g ns V P arbitrary: err and err
    rule: depth_first_search_dfs_for.induct)
  case (1 g k V P)
  from 1(3) obtain e where e: "map_of g k = Some e"
    by (cases "map_of g k") (auto simp: map_of_eq_None_iff)
  then have "(k, e) \<in> set g" by (rule map_of_SomeD)
  from edges_okD[OF 1(2) this] have "set (next_nodes e) \<subseteq> set (map fst g)" by simp
  from 1(1)[OF e 1(2) this] e show ?case by simp
next
  case (2 g V P)
  then show ?case by simp
next
  case (3 g n rest V P)
  from 3(5) have n: "n \<in> set (map fst g)" and rest: "set rest \<subseteq> set (map fst g)" by simp_all
  show ?case
  proof (cases "n \<in> set P")
    case True
    then show ?thesis by simp
  next
    case nin: False
    show ?thesis
    proof (cases "n \<in> V")
      case True
      with nin 3(3)[OF nin _ 3(4) rest] show ?thesis by simp
    next
      case nv: False
      show ?thesis
      proof (cases "depth_first_search g n V P")
        case (Inl e)
        with 3(1)[OF nin nv 3(4) n, of e] show ?thesis by simp
      next
        case (Inr b)
        obtain x y where b: "b = (x, y)" by (cases b)
        show ?thesis
        proof (cases "x \<noteq> None \<and> x \<noteq> Some []")
          case True
          with nin nv Inr b show ?thesis by simp
        next
          case False
          from 3(2)[OF nin nv Inr b[symmetric] False 3(4) rest]
          have "dfs_for g rest y P \<noteq> Inl err" .
          with False nin nv Inr b show ?thesis by auto
        qed
      qed
    qed
  qed
qed

lemma detect_cycle_for_no_error:
  "edges_ok g \<Longrightarrow> set ks \<subseteq> set (map fst g) \<Longrightarrow> detect_cycle_for g ks V \<noteq> Inl err"
proof (induction ks arbitrary: V)
  case Nil
  then show ?case by simp
next
  case (Cons n ks)
  from Cons.prems have n: "n \<in> set (map fst g)" and ks: "set ks \<subseteq> set (map fst g)" by simp_all
  note ih = Cons.IH[OF Cons.prems(1) ks]
  show ?case
  proof (cases "n \<in> V")
    case True
    with ih show ?thesis by simp
  next
    case False
    show ?thesis
    proof (cases "depth_first_search g n V []")
      case (Inl e)
      with dfs_no_error(1)[OF Cons.prems(1) n] show ?thesis by simp
    next
      case (Inr b)
      obtain x y where b: "b = (x, y)" by (cases b)
      with False Inr ih[of y] show ?thesis by auto
    qed
  qed
qed

lemma detect_cycle_for_sound:
  "detect_cycle_for g ks V = Inr (Some c) \<Longrightarrow> \<exists>k \<in> set ks. cycle_from g [k] c"
proof (induction ks arbitrary: V)
  case Nil
  then show ?case by simp
next
  case (Cons n ks)
  show ?case
  proof (cases "n \<in> V")
    case True
    with Cons.prems have "detect_cycle_for g ks V = Inr (Some c)" by simp
    from Cons.IH[OF this] show ?thesis by auto
  next
    case False
    show ?thesis
    proof (cases "depth_first_search g n V []")
      case (Inl e)
      with False Cons.prems show ?thesis by simp
    next
      case (Inr b)
      obtain x y where b: "b = (x, y)" by (cases b)
      show ?thesis
      proof (cases "x \<noteq> None \<and> x \<noteq> Some []")
        case True
        with False Inr b Cons.prems have "x = Some c" by simp
        with Inr b have "depth_first_search g n V [] = Inr (Some c, y)" by simp
        from dfs_sound(1)[OF _ _ this] have "cycle_from g [n] c" by simp
        then show ?thesis by simp
      next
        case f: False
        with False Inr b Cons.prems have "detect_cycle_for g ks y = Inr (Some c)" by auto
        from Cons.IH[OF this] show ?thesis by auto
      qed
    qed
  qed
qed

lemma detect_cycle_for_complete:
  "closed_acyclic g V \<Longrightarrow> detect_cycle_for g ks V = Inr None \<Longrightarrow>
     \<exists>V'. V \<union> set ks \<subseteq> V' \<and> closed_acyclic g V'"
proof (induction ks arbitrary: V)
  case Nil
  then show ?case by auto
next
  case (Cons n ks)
  show ?case
  proof (cases "n \<in> V")
    case True
    with Cons.prems have "detect_cycle_for g ks V = Inr None" by simp
    from Cons.IH[OF Cons.prems(1) this] True show ?thesis by auto
  next
    case False
    show ?thesis
    proof (cases "depth_first_search g n V []")
      case (Inl e)
      with False Cons.prems show ?thesis by simp
    next
      case (Inr b)
      obtain x y where b: "b = (x, y)" by (cases b)
      show ?thesis
      proof (cases "x \<noteq> None \<and> x \<noteq> Some []")
        case True
        with False Inr b Cons.prems show ?thesis by auto
      next
        case f: False
        then have fx: "x = None \<or> x = Some []" by simp
        from Inr b have d: "depth_first_search g n V [] = Inr (x, y)" by simp
        from Cons.prems(1) have "closed_acyclic g (V - set [])" by simp
        from dfs_complete(1)[OF False _ this d fx]
        have ny: "insert n V \<subseteq> y" and cay: "closed_acyclic g y" by simp_all
        from f False Inr b Cons.prems have "detect_cycle_for g ks y = Inr None" by auto
        from Cons.IH[OF cay this] ny show ?thesis by auto
      qed
    qed
  qed
qed

lemma detect_cycle_for_truthy: "detect_cycle_for g ks V \<noteq> Inr (Some [])"
proof (induction ks arbitrary: V)
  case Nil
  then show ?case by simp
next
  case (Cons n ks)
  show ?case
  proof (cases "n \<in> V")
    case True
    with Cons.IH[of V] show ?thesis by simp
  next
    case False
    show ?thesis
    proof (cases "depth_first_search g n V []")
      case (Inl e)
      with False show ?thesis by simp
    next
      case (Inr b)
      obtain x y where b: "b = (x, y)" by (cases b)
      with False Inr Cons.IH[of y] show ?thesis by auto
    qed
  qed
qed

lemma walk_reach:
  "ws \<noteq> [] \<Longrightarrow> walk g ws \<Longrightarrow> (hd ws, last ws) \<in> {(u, v). has_edge g u v}\<^sup>*"
proof (induction g ws rule: walk.induct)
  case (1 g)
  then show ?case by simp
next
  case (2 g u)
  then show ?case by simp
next
  case (3 g u v ws)
  then have "(u, v) \<in> {(u, v). has_edge g u v}"
    and "(v, last (v # ws)) \<in> {(u, v). has_edge g u v}\<^sup>*" by simp_all
  then show ?case by (simp add: converse_rtrancl_into_rtrancl)
qed

lemma is_cycle_trancl:
  "is_cycle g ws \<Longrightarrow> (hd ws, hd ws) \<in> {(u, v). has_edge g u v}\<^sup>+"
proof -
  assume c: "is_cycle g ws"
  then have "(hd ws, last ws) \<in> {(u, v). has_edge g u v}\<^sup>*"
    by (simp add: is_cycle_def walk_reach)
  moreover from c have "(last ws, hd ws) \<in> {(u, v). has_edge g u v}"
    by (simp add: is_cycle_def)
  ultimately show ?thesis by (rule rtrancl_into_trancl1)
qed

lemma has_edge_registered: "has_edge g u v \<Longrightarrow> u \<in> set (map fst g)"
proof -
  assume "has_edge g u v"
  then obtain e where "map_of g u = Some e"
    by (cases "map_of g u") (auto simp: has_edge_def outgoing_def)
  then have "(u, e) \<in> set g" by (rule map_of_SomeD)
  then show ?thesis by force
qed

lemma walk_hd_registered:
  "is_cycle g ws \<Longrightarrow> hd ws \<in> set (map fst g)"
proof -
  assume c: "is_cycle g ws"
  then obtain u rest where ws: "ws = u # rest" by (cases ws) (auto simp: is_cycle_def)
  show ?thesis
  proof (cases rest)
    case Nil
    with c ws have "has_edge g u u" by (simp add: is_cycle_def)
    with ws show ?thesis by (simp add: has_edge_registered del: set_map)
  next
    case (Cons v rest')
    with c ws have "has_edge g u v" by (simp add: is_cycle_def)
    with ws show ?thesis by (simp add: has_edge_registered del: set_map)
  qed
qed

lemma cycle_found:
  assumes "edges_ok g" "has_cycle g"
  shows "\<exists>c. cycle_path g = Inr (Some c)"
proof -
  from assms(2) obtain ws where ws: "is_cycle g ws" by (auto simp: has_cycle_def)
  have "cycle_path g \<noteq> Inr None"
  proof
    assume n: "cycle_path g = Inr None"
    have "closed_acyclic g {}" by (simp add: closed_acyclic_def)
    from detect_cycle_for_complete[OF this n[unfolded cycle_path_def]]
    obtain V' where V': "set (map fst g) \<subseteq> V'" "closed_acyclic g V'" by auto
    from walk_hd_registered[OF ws] V'(1) have "hd ws \<in> V'" by blast
    with V'(2) have "(hd ws, hd ws) \<notin> {(u, v). has_edge g u v}\<^sup>+"
      by (simp add: closed_acyclic_def)
    with is_cycle_trancl[OF ws] show False by simp
  qed
  moreover have "cycle_path g \<noteq> Inl err" for err
    unfolding cycle_path_def by (rule detect_cycle_for_no_error[OF assms(1)]) simp
  ultimately show ?thesis
  proof (cases "cycle_path g")
    case (Inl a)
    assume "\<And>err. cycle_path g \<noteq> Inl err"
    with Inl show ?thesis by blast
  next
    case (Inr b)
    assume "cycle_path g \<noteq> Inr None"
    with Inr show ?thesis by (cases b) auto
  qed
qed

lemma cycle_fromD:
  assumes "cycle_from g [k] c"
  shows "is_cycle g c \<and> distinct c \<and>
         (\<exists>pre. walk g (pre @ c) \<and> distinct (pre @ c) \<and> hd (pre @ c) = k)"
proof -
  from assms obtain pre suf where p: "[k] @ suf = pre @ c" "walk g ([k] @ suf)"
    "distinct ([k] @ suf)" "c \<noteq> []" "has_edge g (last c) (hd c)"
    unfolding cycle_from_def by blast
  from p(1,2) have w: "walk g (pre @ c)" by simp
  from p(1,3) have d: "distinct (pre @ c)" by simp
  from p(1) have h: "hd (pre @ c) = k" by (metis append_Cons list.sel(1))
  from w have "walk g c" by (rule walk_suffix)
  with p(4,5) have "is_cycle g c" by (simp add: is_cycle_def)
  moreover from d have "distinct c" by simp
  ultimately show ?thesis using w d h by blast
qed

lemma describe_path_registered:
  "set ks \<subseteq> set (map fst g) \<Longrightarrow> describe_path g ks = Inr (map (description g) ks)"
proof (induction ks)
  case Nil
  then show ?case by simp
next
  case (Cons k ks)
  then obtain e where "map_of g k = Some e"
    by (cases "map_of g k") (auto simp: map_of_eq_None_iff)
  with Cons show ?case by (simp add: description_def)
qed

lemma walk_registered:
  "walk g ws \<Longrightarrow> has_edge g (last ws) v \<Longrightarrow> set ws \<subseteq> set (map fst g)"
proof (induction g ws rule: walk.induct)
  case (1 g)
  then show ?case by simp
next
  case (2 g u)
  then show ?case by (simp add: has_edge_registered del: set_map)
next
  case (3 g u w ws)
  then have "has_edge g u w" and "set (w # ws) \<subseteq> set (map fst g)" by simp_all
  then show ?case using has_edge_registered[of g u w] by simp
qed

text \<open>
  The recursive search and the machine go together. A call of \<open>dfs_for\<close> with
  \<open>nodes_in_cycle = P\<close> and the neighbours \<open>ns\<close> left corresponds to a configuration whose
  path is \<open>P\<close> and whose top node has \<open>ns\<close> left. If the call returns no cycle, the machine
  comes to the same stack with no neighbour left for the top node (\<open>search_exhausts\<close>); if
  it returns a cycle, the machine comes to a configuration where the next neighbour is
  on the path, and the cycle is the path from there on (\<open>search_finds\<close>).
\<close>

lemma step_then:
  "search_step g a b \<Longrightarrow> (search_step g)\<^sup>*\<^sup>* b c \<Longrightarrow> (search_step g)\<^sup>*\<^sup>* a c"
  by (rule converse_rtranclp_into_rtranclp)

lemma path_of_snoc: "path_of (fs @ [(u, ns)]) = path_of fs @ [u]"
  by (simp add: path_of_def)

lemma outgoing_registered: "map_of g k = Some e \<Longrightarrow> outgoing g k = next_nodes e"
  by (simp add: outgoing_def)

lemma search_exhausts:
  "depth_first_search g k V P = Inr (r, V') \<Longrightarrow> r = None \<or> r = Some [] \<Longrightarrow>
     P = path_of fs \<Longrightarrow>
     (search_step g)\<^sup>*\<^sup>* (insert k V, fs @ [(k, outgoing g k)], rs) (V', fs @ [(k, [])], rs)"
  "dfs_for g ns V P = Inr (r, V') \<Longrightarrow> r = None \<or> r = Some [] \<Longrightarrow>
     P = path_of fs @ [u] \<Longrightarrow>
     (search_step g)\<^sup>*\<^sup>* (V, fs @ [(u, ns)], rs) (V', fs @ [(u, [])], rs)"
proof (induction g k V P and g ns V P arbitrary: r V' fs rs and r V' fs u rs
    rule: depth_first_search_dfs_for.induct)
  case (1 g k V P)
  from 1(2) obtain e where e: "map_of g k = Some e"
    by (cases "map_of g k") auto
  with 1(2) have r: "dfs_for g (next_nodes e) (insert k V) (P @ [k]) = Inr (r, V')" by simp
  from 1(4) have "P @ [k] = path_of fs @ [k]" by simp
  from 1(1)[OF e r 1(3) this, of rs] show ?case by (simp add: outgoing_registered[OF e])
next
  case (2 g V P)
  then show ?case by simp
next
  case (3 g n rest V P)
  from 3(6) have p: "path_of (fs @ [(u, n # rest)]) = P" by (simp add: path_of_snoc)
  show ?case
  proof (cases "n \<in> set P")
    case True
    with 3(4) have "r = Some (dropWhile (\<lambda>x. x \<noteq> n) P)" by simp
    with 3(5) have "dropWhile (\<lambda>x. x \<noteq> n) P = []" by auto
    with dropWhile_truthy[OF True] show ?thesis by blast
  next
    case nin: False
    show ?thesis
    proof (cases "n \<in> V")
      case True
      with nin 3(4) have "dfs_for g rest V P = Inr (r, V')" by simp
      from 3(3)[OF nin _ this 3(5) 3(6), of rs] True
      have "(search_step g)\<^sup>*\<^sup>* (V, fs @ [(u, rest)], rs) (V', fs @ [(u, [])], rs)" by simp
      moreover have "search_step g (V, fs @ [(u, n # rest)], rs) (V, fs @ [(u, rest)], rs)"
        using nin True by (intro neighbour_visited) (simp_all add: p)
      ultimately show ?thesis by (rule step_then[rotated])
    next
      case nv: False
      show ?thesis
      proof (cases "depth_first_search g n V P")
        case (Inl err)
        with nin nv 3(4) show ?thesis by simp
      next
        case (Inr b)
        obtain x y where b: "b = (x, y)" by (cases b)
        show ?thesis
        proof (cases "x \<noteq> None \<and> x \<noteq> Some []")
          case True
          with nin nv 3(4) Inr b have "r = x" by simp
          with True 3(5) show ?thesis by simp
        next
          case False
          then have fx: "x = None \<or> x = Some []" by simp
          from Inr b have dx: "depth_first_search g n V P = Inr (x, y)" by simp
          have pf: "P = path_of (fs @ [(u, rest)])" using 3(6) by (simp add: path_of_snoc)
          from 3(1)[OF nin nv dx fx pf, of rs]
          have s2: "(search_step g)\<^sup>*\<^sup>*
              (insert n V, (fs @ [(u, rest)]) @ [(n, outgoing g n)], rs)
              (y, (fs @ [(u, rest)]) @ [(n, [])], rs)" .
          have s1: "search_step g (V, fs @ [(u, n # rest)], rs)
              (insert n V, fs @ [(u, rest), (n, outgoing g n)], rs)"
            using nin nv by (intro neighbour_new) (simp_all add: p)
          have s3: "search_step g (y, (fs @ [(u, rest)]) @ [(n, [])], rs) (y, fs @ [(u, rest)], rs)"
            by (rule backtrack)
          from False nin nv 3(4) Inr b have "dfs_for g rest y P = Inr (r, V')" by auto
          from 3(2)[OF nin nv Inr b[symmetric] False this 3(5) 3(6), of rs]
          have s4: "(search_step g)\<^sup>*\<^sup>* (y, fs @ [(u, rest)], rs) (V', fs @ [(u, [])], rs)" .
          from s1 s2 s3 s4 show ?thesis by (simp add: rtranclp.rtrancl_into_rtrancl step_then)
        qed
      qed
    qed
  qed
qed

lemma search_finds:
  "depth_first_search g k V P = Inr (Some c, V') \<Longrightarrow> c \<noteq> [] \<Longrightarrow> P = path_of fs \<Longrightarrow>
     \<exists>cfg n. (search_step g)\<^sup>*\<^sup>* (insert k V, fs @ [(k, outgoing g k)], rs) cfg \<and>
        at_reencounter cfg n \<and> c = path_from cfg n"
  "dfs_for g ns V P = Inr (Some c, V') \<Longrightarrow> c \<noteq> [] \<Longrightarrow> P = path_of fs @ [u] \<Longrightarrow>
     \<exists>cfg n. (search_step g)\<^sup>*\<^sup>* (V, fs @ [(u, ns)], rs) cfg \<and>
        at_reencounter cfg n \<and> c = path_from cfg n"
proof (induction g k V P and g ns V P arbitrary: c V' fs rs and c V' fs u rs
    rule: depth_first_search_dfs_for.induct)
  case (1 g k V P)
  from 1(2) obtain e where e: "map_of g k = Some e"
    by (cases "map_of g k") auto
  with 1(2) have r: "dfs_for g (next_nodes e) (insert k V) (P @ [k]) = Inr (Some c, V')" by simp
  from 1(4) have "P @ [k] = path_of fs @ [k]" by simp
  from 1(1)[OF e r 1(3) this, of rs] show ?case by (simp add: outgoing_registered[OF e])
next
  case (2 g V P)
  then show ?case by simp
next
  case (3 g n rest V P)
  from 3(6) have p: "path_of (fs @ [(u, n # rest)]) = P" by (simp add: path_of_snoc)
  show ?case
  proof (cases "n \<in> set P")
    case True
    with 3(4) have c: "c = dropWhile (\<lambda>x. x \<noteq> n) P" by simp
    have "at_reencounter (V, fs @ [(u, n # rest)], rs) n"
      using True by (auto simp: at_reencounter_def p)
    moreover have "c = path_from (V, fs @ [(u, n # rest)], rs) n"
      by (simp add: path_from_def p c)
    ultimately show ?thesis by blast
  next
    case nin: False
    show ?thesis
    proof (cases "n \<in> V")
      case True
      with nin 3(4) have "dfs_for g rest V P = Inr (Some c, V')" by simp
      from 3(3)[OF nin _ this 3(5) 3(6), of rs] True
      obtain cfg m where "(search_step g)\<^sup>*\<^sup>* (V, fs @ [(u, rest)], rs) cfg"
        "at_reencounter cfg m" "c = path_from cfg m" by auto
      moreover have "search_step g (V, fs @ [(u, n # rest)], rs) (V, fs @ [(u, rest)], rs)"
        using nin True by (intro neighbour_visited) (simp_all add: p)
      ultimately show ?thesis using step_then by blast
    next
      case nv: False
      have s1: "search_step g (V, fs @ [(u, n # rest)], rs)
          (insert n V, fs @ [(u, rest), (n, outgoing g n)], rs)"
        using nin nv by (intro neighbour_new) (simp_all add: p)
      have pf: "P = path_of (fs @ [(u, rest)])" using 3(6) by (simp add: path_of_snoc)
      show ?thesis
      proof (cases "depth_first_search g n V P")
        case (Inl err)
        with nin nv 3(4) show ?thesis by simp
      next
        case (Inr b)
        obtain x y where b: "b = (x, y)" by (cases b)
        from Inr b have dx: "depth_first_search g n V P = Inr (x, y)" by simp
        show ?thesis
        proof (cases "x \<noteq> None \<and> x \<noteq> Some []")
          case True
          with nin nv 3(4) Inr b have "x = Some c" by simp
          with dx have "depth_first_search g n V P = Inr (Some c, y)" by simp
          from 3(1)[OF nin nv this 3(5) pf, of rs]
          obtain cfg m where "(search_step g)\<^sup>*\<^sup>*
              (insert n V, (fs @ [(u, rest)]) @ [(n, outgoing g n)], rs) cfg"
            "at_reencounter cfg m" "c = path_from cfg m" by auto
          with s1 show ?thesis using step_then[of g] by fastforce
        next
          case False
          then have fx: "x = None \<or> x = Some []" by simp
          from search_exhausts(1)[OF dx fx pf, of rs]
          have s2: "(search_step g)\<^sup>*\<^sup>*
              (insert n V, (fs @ [(u, rest)]) @ [(n, outgoing g n)], rs)
              (y, (fs @ [(u, rest)]) @ [(n, [])], rs)" .
          have s3: "search_step g (y, (fs @ [(u, rest)]) @ [(n, [])], rs) (y, fs @ [(u, rest)], rs)"
            by (rule backtrack)
          from False nin nv 3(4) Inr b have "dfs_for g rest y P = Inr (Some c, V')" by auto
          from 3(2)[OF nin nv Inr b[symmetric] False this 3(5) 3(6), of rs]
          obtain cfg m where s4: "(search_step g)\<^sup>*\<^sup>* (y, fs @ [(u, rest)], rs) cfg"
            and f: "at_reencounter cfg m" "c = path_from cfg m" by auto
          from s1 s2 s3 s4
          have "(search_step g)\<^sup>*\<^sup>* (V, fs @ [(u, n # rest)], rs) cfg"
            by (simp add: rtranclp.rtrancl_into_rtrancl step_then)
          with f show ?thesis by blast
        qed
      qed
    qed
  qed
qed

lemma detect_cycle_for_finds:
  "detect_cycle_for g ks V = Inr (Some c) \<Longrightarrow>
     \<exists>cfg n. (search_step g)\<^sup>*\<^sup>* (V, [], ks) cfg \<and> at_reencounter cfg n \<and> c = path_from cfg n"
proof (induction ks arbitrary: V)
  case Nil
  then show ?case by simp
next
  case (Cons r ks)
  show ?case
  proof (cases "r \<in> V")
    case True
    with Cons.prems have "detect_cycle_for g ks V = Inr (Some c)" by simp
    from Cons.IH[OF this] obtain cfg n where "(search_step g)\<^sup>*\<^sup>* (V, [], ks) cfg"
      "at_reencounter cfg n" "c = path_from cfg n" by blast
    moreover have "search_step g (V, [], r # ks) (V, [], ks)" using True by (rule root_visited)
    ultimately show ?thesis using step_then by blast
  next
    case False
    have s1: "search_step g (V, [], r # ks) (insert r V, [(r, outgoing g r)], ks)"
      using False by (rule root_start)
    have pf: "[] = path_of []" by (simp add: path_of_def)
    show ?thesis
    proof (cases "depth_first_search g r V []")
      case (Inl err)
      with False Cons.prems show ?thesis by simp
    next
      case (Inr b)
      obtain x y where b: "b = (x, y)" by (cases b)
      from Inr b have dx: "depth_first_search g r V [] = Inr (x, y)" by simp
      show ?thesis
      proof (cases "x \<noteq> None \<and> x \<noteq> Some []")
        case True
        with False Inr b Cons.prems have xc: "x = Some c" by simp
        with True have ne: "c \<noteq> []" by simp
        from xc dx have "depth_first_search g r V [] = Inr (Some c, y)" by simp
        from search_finds(1)[OF this ne pf, of ks]
        obtain cfg n where "(search_step g)\<^sup>*\<^sup>* (insert r V, [(r, outgoing g r)], ks) cfg"
          "at_reencounter cfg n" "c = path_from cfg n" by auto
        with s1 show ?thesis using step_then by blast
      next
        case f: False
        then have fx: "x = None \<or> x = Some []" by simp
        from search_exhausts(1)[OF dx fx pf, of ks]
        have s2: "(search_step g)\<^sup>*\<^sup>* (insert r V, [(r, outgoing g r)], ks) (y, [(r, [])], ks)"
          by simp
        have s3: "search_step g (y, [] @ [(r, [])], ks) (y, [], ks)" by (rule backtrack)
        from f False Inr b Cons.prems have "detect_cycle_for g ks y = Inr (Some c)" by auto
        from Cons.IH[OF this] obtain cfg n where s4: "(search_step g)\<^sup>*\<^sup>* (y, [], ks) cfg"
          and fd: "at_reencounter cfg n" "c = path_from cfg n" by blast
        from s1 s2 s3 s4 have "(search_step g)\<^sup>*\<^sup>* (V, [], r # ks) cfg"
          by (simp add: rtranclp.rtrancl_into_rtrancl step_then)
        with fd show ?thesis by blast
      qed
    qed
  qed
qed

lemma search_step_deterministic:
  "search_step g a b \<Longrightarrow> search_step g a c \<Longrightarrow> b = c"
  by (induction rule: search_step.induct) (auto elim: search_step.cases)

lemma reencounter_no_step:
  assumes "at_reencounter cfg n" shows "\<not> search_step g cfg cfg'"
proof
  assume s: "search_step g cfg cfg'"
  obtain V stack rs where cfg: "cfg = (V, stack, rs)" by (cases cfg)
  from assms cfg obtain fs u ns where st: "stack = fs @ [(u, n # ns)]"
    and on: "n \<in> set (path_of stack)" by (auto simp: at_reencounter_def)
  from s show False unfolding cfg st
    by (cases rule: search_step.cases) (use on st in auto)
qed

lemma reencounter_same:
  "at_reencounter cfg n \<Longrightarrow> at_reencounter cfg n' \<Longrightarrow> n = n'"
  by (cases cfg) (auto simp: at_reencounter_def)

lemma reencounter_unique:
  assumes "(search_step g)\<^sup>*\<^sup>* a b" "at_reencounter b n"
    and "(search_step g)\<^sup>*\<^sup>* a b'" "at_reencounter b' n'"
  shows "b' = b \<and> n' = n"
proof -
  have "b' = b" using assms(1,3)
  proof (induction arbitrary: rule: converse_rtranclp_induct)
    case base
    from base show ?case
    proof (cases rule: converse_rtranclpE)
      case base
      then show ?thesis by simp
    next
      case (step y)
      with reencounter_no_step[OF assms(2)] show ?thesis by blast
    qed
  next
    case (step x y)
    from step.prems show ?case
    proof (cases rule: converse_rtranclpE)
      case base
      with reencounter_no_step[OF assms(4)] step.hyps(1) show ?thesis by blast
    next
      case (step z)
      with search_step_deterministic[OF \<open>search_step g x y\<close>] have "z = y" by blast
      with step \<open>(search_step g)\<^sup>*\<^sup>* y b' \<Longrightarrow> b' = b\<close> show ?thesis by blast
    qed
  qed
  with assms(2,4) reencounter_same show ?thesis by blast
qed

lemma path_from_hd: "at_reencounter cfg n \<Longrightarrow> hd (path_from cfg n) = n"
proof -
  assume a: "at_reencounter cfg n"
  obtain V stack rs where cfg: "cfg = (V, stack, rs)" by (cases cfg)
  with a have "n \<in> set (path_of stack)" by (simp add: at_reencounter_def)
  then have "dropWhile (\<lambda>x. x \<noteq> n) (path_of stack) \<noteq> []" by (rule dropWhile_truthy)
  with hd_dropWhile[of "\<lambda>x. x \<noteq> n" "path_of stack"] show ?thesis
    by (simp add: path_from_def cfg)
qed

lemma walk_prefix: "walk g (xs @ ys) \<Longrightarrow> walk g xs"
proof (induction g xs rule: walk.induct)
  case (1 g)
  then show ?case by simp
next
  case (2 g u)
  then show ?case by simp
next
  case (3 g u v ws)
  then show ?case by simp
qed

lemma search_step_path_ok:
  "search_step g a b \<Longrightarrow> path_ok g a \<Longrightarrow> path_ok g b"
proof (induction rule: search_step.induct)
  case (root_visited r V rs)
  then show ?case by (simp add: path_ok_def)
next
  case (root_start r V rs)
  then show ?case by (simp add: path_ok_def path_of_def)
next
  case (neighbour_visited n fs u ns V rs)
  then show ?case by (auto simp: path_ok_def path_of_def)
next
  case (neighbour_new n fs u ns V rs)
  from neighbour_new(3) have d: "distinct (path_of fs @ [u])" and w: "walk g (path_of fs @ [u])"
    and fr: "\<forall>(u, ns) \<in> set fs. set ns \<subseteq> set (outgoing g u)"
    and nu: "set (n # ns) \<subseteq> set (outgoing g u)"
    by (auto simp: path_ok_def path_of_def)
  from neighbour_new(1) have nin: "n \<notin> set (path_of fs @ [u])" by (simp add: path_of_def)
  from nu have e: "has_edge g u n" by (simp add: has_edge_def)
  have p: "path_of (fs @ [(u, ns), (n, outgoing g n)]) = (path_of fs @ [u]) @ [n]"
    by (simp add: path_of_def)
  have w': "walk g ((path_of fs @ [u]) @ [n])"
    unfolding walk_append_single[of g "path_of fs @ [u]" n] using w e by simp
  have d': "distinct ((path_of fs @ [u]) @ [n])" using d nin by auto
  from fr nu have "\<forall>(u, ns) \<in> set (fs @ [(u, ns), (n, outgoing g n)]).
      set ns \<subseteq> set (outgoing g u)" by auto
  with w' d' show ?case by (simp add: path_ok_def p)
next
  case (backtrack V fs u rs)
  then have "distinct (path_of fs @ [u])" "walk g (path_of fs @ [u])"
    "\<forall>(u, ns) \<in> set fs. set ns \<subseteq> set (outgoing g u)"
    by (auto simp: path_ok_def path_of_def)
  then show ?case using walk_prefix[of g "path_of fs" "[u]"] by (simp add: path_ok_def)
qed

lemma search_steps_path_ok:
  "(search_step g)\<^sup>*\<^sup>* a b \<Longrightarrow> path_ok g a \<Longrightarrow> path_ok g b"
  by (induction rule: rtranclp_induct) (auto intro: search_step_path_ok)

lemma path_ok_init: "path_ok g (search_init g)"
  by (simp add: path_ok_def search_init_def path_of_def)

text \<open>
  C1. In a graph with a cycle \<open>detect_cycle\<close> returns the descriptions of a sequence of
  nodes \<open>c\<close> in which each node has an edge to the next and the last one to the first,
  and in which no node occurs twice. \<open>c\<close> is the end of the search path: the search of
  the specification, run from its start, comes to the one configuration in which the
  neighbour \<open>n\<close> to examine is on the path, and \<open>c\<close> is that path from the position of \<open>n\<close>
  to its end, the part before \<open>n\<close> being dropped. The path as a whole is a walk without
  repetition.
\<close>

theorem detect_cycle_finds_cycle:
  assumes "edges_ok g" "has_cycle g"
  shows "\<exists>c cfg n pre.
           cycle_path g = Inr (Some c) \<and>
           detect_cycle g = Inr (Some (map (description g) c)) \<and>
           c \<noteq> [] \<and> distinct c \<and> walk g c \<and> has_edge g (last c) (hd c) \<and>
           (search_step g)\<^sup>*\<^sup>* (search_init g) cfg \<and> at_reencounter cfg n \<and>
           c = path_from cfg n \<and> hd c = n \<and>
           path_of (fst (snd cfg)) = pre @ c \<and> n \<notin> set pre \<and>
           distinct (pre @ c) \<and> walk g (pre @ c) \<and>
           (\<forall>cfg' n'. (search_step g)\<^sup>*\<^sup>* (search_init g) cfg' \<longrightarrow> at_reencounter cfg' n' \<longrightarrow>
              cfg' = cfg \<and> n' = n)"
proof -
  from cycle_found[OF assms] obtain c where c: "cycle_path g = Inr (Some c)" by blast
  from detect_cycle_for_sound[OF c[unfolded cycle_path_def]]
  obtain k where cf: "cycle_from g [k] c" by blast
  from cycle_fromD[OF cf] have cyc: "is_cycle g c" and dc: "distinct c" by blast+
  from cyc have ne: "c \<noteq> []" and wc: "walk g c" and wrap: "has_edge g (last c) (hd c)"
    by (simp_all add: is_cycle_def)
  from walk_registered[OF wc wrap] have "describe_path g c = Inr (map (description g) c)"
    by (rule describe_path_registered)
  with c have dc': "detect_cycle g = Inr (Some (map (description g) c))"
    by (simp add: detect_cycle_def)
  from detect_cycle_for_finds[OF c[unfolded cycle_path_def]]
  obtain cfg n where run: "(search_step g)\<^sup>*\<^sup>* (search_init g) cfg"
    and re: "at_reencounter cfg n" and pf: "c = path_from cfg n"
    by (auto simp: search_init_def)
  from path_from_hd[OF re] pf have h: "hd c = n" by simp
  obtain V stack rs where cfg: "cfg = (V, stack, rs)" by (cases cfg)
  define pre where "pre = takeWhile (\<lambda>x. x \<noteq> n) (path_of stack)"
  have sp: "path_of (fst (snd cfg)) = pre @ c"
    by (simp add: cfg pre_def pf path_from_def)
  have npre: "n \<notin> set pre"
    unfolding pre_def by (auto dest: set_takeWhileD)
  have uniq: "\<forall>cfg' n'. (search_step g)\<^sup>*\<^sup>* (search_init g) cfg' \<longrightarrow> at_reencounter cfg' n' \<longrightarrow>
      cfg' = cfg \<and> n' = n"
    using reencounter_unique[OF run re] by blast
  from search_steps_path_ok[OF run path_ok_init]
  have "distinct (path_of stack)" "walk g (path_of stack)"
    by (simp_all add: path_ok_def cfg)
  with sp have dp: "distinct (pre @ c)" and wp: "walk g (pre @ c)"
    by (simp_all add: cfg)
  from c dc' ne dc wc wrap run re pf h sp npre dp wp uniq show ?thesis by blast
qed

theorem detect_cycle_finds_cycle_witness:
  "edges_ok scenario_A \<and> has_cycle scenario_A \<and>
   cycle_path scenario_A =
     Inr (Some [''Thread 0x000000000001'', ''Lock 0x0000000000a1'',
                ''Thread 0x000000000002'', ''Lock 0x0000000000a2'']) \<and>
   (\<exists>cfg. (search_step scenario_A)\<^sup>*\<^sup>* (search_init scenario_A) cfg \<and>
      at_reencounter cfg ''Thread 0x000000000001'' \<and>
      path_from cfg ''Thread 0x000000000001'' =
        [''Thread 0x000000000001'', ''Lock 0x0000000000a1'',
         ''Thread 0x000000000002'', ''Lock 0x0000000000a2''])"
proof -
  have h1: "edges_ok scenario_A"
    by code_simp
  have "is_cycle scenario_A
      [''Thread 0x000000000001'', ''Lock 0x0000000000a1'', ''Thread 0x000000000002'',
       ''Lock 0x0000000000a2'']"
    by code_simp
  then have h2: "has_cycle scenario_A" unfolding has_cycle_def by (rule exI)
  have cp: "cycle_path scenario_A =
     Inr (Some [''Thread 0x000000000001'', ''Lock 0x0000000000a1'',
                ''Thread 0x000000000002'', ''Lock 0x0000000000a2''])"
    by code_simp
  from detect_cycle_finds_cycle[OF h1 h2] obtain c cfg n where
    c: "cycle_path scenario_A = Inr (Some c)"
    and run: "(search_step scenario_A)\<^sup>*\<^sup>* (search_init scenario_A) cfg"
    and re: "at_reencounter cfg n" and pf: "c = path_from cfg n" and h: "hd c = n"
    by blast
  from c cp have ceq: "c = [''Thread 0x000000000001'', ''Lock 0x0000000000a1'',
      ''Thread 0x000000000002'', ''Lock 0x0000000000a2'']" by simp
  with h have n: "n = ''Thread 0x000000000001''" by simp
  from pf ceq n have pf': "path_from cfg ''Thread 0x000000000001'' =
        [''Thread 0x000000000001'', ''Lock 0x0000000000a1'',
         ''Thread 0x000000000002'', ''Lock 0x0000000000a2'']" by simp
  from re n have re': "at_reencounter cfg ''Thread 0x000000000001''" by simp
  from run re' pf' have "\<exists>cfg. (search_step scenario_A)\<^sup>*\<^sup>* (search_init scenario_A) cfg \<and>
      at_reencounter cfg ''Thread 0x000000000001'' \<and>
      path_from cfg ''Thread 0x000000000001'' =
        [''Thread 0x000000000001'', ''Lock 0x0000000000a1'',
         ''Thread 0x000000000002'', ''Lock 0x0000000000a2'']"
    by (intro exI conjI)
  with h1 h2 cp show ?thesis by blast
qed

text \<open>
  C2. In a graph without a cycle \<open>detect_cycle\<close> returns \<open>None\<close>.
\<close>

theorem detect_cycle_acyclic:
  assumes "edges_ok g" "\<not> has_cycle g"
  shows "detect_cycle g = Inr None \<and> cycle_path g = Inr None"
proof -
  have ne: "cycle_path g \<noteq> Inl err" for err
    unfolding cycle_path_def by (rule detect_cycle_for_no_error[OF assms(1)]) simp
  have ns: "cycle_path g \<noteq> Inr (Some c)" for c
  proof
    assume "cycle_path g = Inr (Some c)"
    from detect_cycle_for_sound[OF this[unfolded cycle_path_def]]
    obtain k where "cycle_from g [k] c" by blast
    from cycle_fromD[OF this] have "is_cycle g c" by blast
    with assms(2) show False by (auto simp: has_cycle_def)
  qed
  have c: "cycle_path g = Inr None"
  proof (cases "cycle_path g")
    case (Inl a)
    with ne show ?thesis by blast
  next
    case (Inr b)
    with ns show ?thesis by (cases b) auto
  qed
  then show ?thesis by (simp add: detect_cycle_def)
qed

theorem detect_cycle_acyclic_witness:
  "edges_ok chain_graph \<and> \<not> has_cycle chain_graph \<and>
   map fst chain_graph = [''Thread 0x000000000001'', ''Lock 0x0000000000a1'', ''Thread 0x000000000002''] \<and>
   detect_cycle chain_graph = Inr None"
proof -
  have h1: "edges_ok chain_graph"
    by code_simp
  have n: "cycle_path chain_graph = Inr None"
    by code_simp
  have h2: "\<not> has_cycle chain_graph"
  proof
    assume "has_cycle chain_graph"
    from cycle_found[OF h1 this] n show False by simp
  qed
  have m: "map fst chain_graph =
      [''Thread 0x000000000001'', ''Lock 0x0000000000a1'', ''Thread 0x000000000002'']"
    by code_simp
  from detect_cycle_acyclic[OF h1 h2] h1 h2 m show ?thesis by blast
qed

section \<open>The empty graph\<close>

lemma notice_emit_ignoring:
  "\<forall>ev \<in> set (out st). notice ev \<Longrightarrow> \<forall>ev \<in> set (out (emit st (ignoring msg place))). notice ev"
  by (simp add: emit_def ignoring_def notice_def)

lemma notice_ignoring: "notice (Print (ignoring msg place))"
  by (simp add: ignoring_def notice_def)

lemma notice_unable:
  "notice (Print (''Unable to retrieve thread_info for thread '' @ s))"
  by (simp add: notice_def)

lemma get_threads_info_loop_notice:
  "\<forall>ev \<in> set printed. notice ev \<Longrightarrow>
   get_threads_info_loop thread_dict printed threads = (thread_dict', printed') \<Longrightarrow>
   \<forall>ev \<in> set printed'. notice ev"
proof (induction thread_dict printed threads rule: get_threads_info_loop.induct)
  case (1 thread_dict printed)
  then show ?case by simp
next
  case (2 thread_dict printed ts)
  then show ?case by simp
next
  case (3 thread_dict printed msg ts)
  from 3(2) have "\<forall>ev \<in> set (printed @ [Print (ignoring msg ''get_threads_info'')]). notice ev"
    by (simp add: notice_def ignoring_def)
  from 3(1)[OF this] 3(3) show ?case by simp
next
  case (4 thread_dict printed lwp thread_num info ts)
  have ig: "\<forall>ev \<in> set (printed @ [Print (ignoring msg ''get_threads_info'')]). notice ev" for msg
    using 4(5) by (simp add: notice_def ignoring_def)
  have un: "\<forall>ev \<in> set (printed @ [Print (''Unable to retrieve thread_info for thread ''
      @ format_int thread_num)]). notice ev"
    using 4(5) by (simp add: notice_def)
  show ?case
  proof (cases info)
    case (Inl msg)
    with 4(6) have "get_threads_info_loop thread_dict
        (printed @ [Print (ignoring msg ''get_threads_info'')]) ts = (thread_dict', printed')"
      by simp
    from 4(1)[OF Inl ig this] show ?thesis .
  next
    case (Inr p)
    obtain thread_name tid where p: "p = (thread_name, tid)" by (cases p)
    show ?thesis
    proof (cases tid)
      case None
      with Inr p 4(6) have "get_threads_info_loop thread_dict
          (printed @ [Print (''Unable to retrieve thread_info for thread ''
             @ format_int thread_num)]) ts = (thread_dict', printed')"
        by simp
      from 4(2)[OF Inr p[symmetric] None un this] show ?thesis .
    next
      case (Some i)
      show ?thesis
      proof (cases "i = 0")
        case True
        with Some Inr p 4(6) have "get_threads_info_loop thread_dict
            (printed @ [Print (''Unable to retrieve thread_info for thread ''
               @ format_int thread_num)]) ts = (thread_dict', printed')"
          by simp
        from 4(3)[OF Inr p[symmetric] Some True un this] show ?thesis .
      next
        case False
        with Some Inr p 4(6) have "get_threads_info_loop
            (dict_set thread_dict lwp \<lparr>thread_id = i, lwpid = lwp, name = thread_name\<rparr>)
            printed ts = (thread_dict', printed')"
          by simp
        from 4(4)[OF Inr p[symmetric] Some False 4(5) this] show ?thesis .
      qed
    qed
  qed
qed

lemma find_frame_from_notice:
  "\<forall>ev \<in> set (out st). notice ev \<Longrightarrow>
   find_frame_from st re_match pat f = (r, fr, st') \<Longrightarrow>
   \<forall>ev \<in> set (out st'). notice ev"
proof (induction st re_match pat f rule: find_frame_from.induct)
  case (1 st re_match pat b d old)
  show ?case
  proof (cases old)
    case NoOlder
    with 1(2,3) show ?thesis by (auto split: block_result.splits if_splits sum.splits option.splits)
  next
    case (OlderRaises msg)
    with 1(2,3) notice_emit_ignoring[OF 1(2), of msg "''find_frame''"] show ?thesis
      by (auto split: block_result.splits if_splits sum.splits option.splits)
  next
    case (Older f)
    define func where "func = (case b of Block blk \<Rightarrow> Inr (find_func_block blk)
        | BlockRaises err \<Rightarrow> if runtime_message err = Some ''Cannot locate block for frame.''
            then Inr None else Inl err)"
    show ?thesis
    proof (cases func)
      case (Inl err)
      with 1(3) 1(2) show ?thesis by (simp add: func_def)
    next
      case (Inr fn)
      show ?thesis
      proof (cases "case fn of None \<Rightarrow> False | Some fname \<Rightarrow> re_match pat fname")
        case True
        with Inr 1(3) 1(2) show ?thesis by (simp add: func_def)
      next
        case False
        with Inr Older 1(3) have "find_frame_from st re_match pat f = (r, fr, st')"
          by (simp add: func_def)
        from 1(1)[OF Inr[unfolded func_def] False Older 1(2) this] show ?thesis .
      qed
    qed
  qed
qed

lemma find_frame_notice:
  "\<forall>ev \<in> set (out st). notice ev \<Longrightarrow>
   find_frame st re_match pat newest = (r, fr, st') \<Longrightarrow>
   \<forall>ev \<in> set (out st'). notice ev"
  by (cases newest) (auto simp: find_frame_def dest: find_frame_from_notice)

lemma find_mutex_holder_notice:
  assumes "\<forall>ev \<in> set (out st). notice ev"
    and "find_mutex_holder st re_match thread_dict False lwp newest = (r, st')"
  shows "\<forall>ev \<in> set (out st'). notice ev"
proof -
  obtain e fr st0 where f: "find_frame st re_match mutex_lock_pattern newest = (e, fr, st0)"
    by (cases "find_frame st re_match mutex_lock_pattern newest") auto
  from find_frame_notice[OF assms(1) f] have n0: "\<forall>ev \<in> set (out st0). notice ev" .
  then have n1: "\<forall>ev \<in> set (out (emit st0 (''Warning: Mutex at '' @ s))). notice ev" for s
    by (simp add: emit_def notice_def)
  from assms(2) f n0 n1 show ?thesis
    by (auto simp: find_mutex_holder_def Let_def
        split: option.splits sum.splits prod.splits if_splits)
qed

lemma granted_list_loop_notice:
  "\<forall>ev \<in> set (out st). notice ev \<Longrightarrow>
   granted_list_loop st thread_dict False w text a rs we = (r, st') \<Longrightarrow>
   \<forall>ev \<in> set (out st'). notice ev"
proof (induction rs arbitrary: st)
  case Nil
  then show ?case by (auto split: option.splits)
next
  case (Cons x rs)
  show ?case
  proof (cases "graph st")
    case None
    with Cons.prems(2) have "granted_list_loop st thread_dict False w text a rs we = (r, st')"
      by simp
    from Cons.IH[OF Cons.prems(1) this] show ?thesis .
  next
    case (Some g)
    show ?thesis
    proof (cases "find_thread thread_dict (locker_thread_id x)")
      case None
      with Some Cons.prems show ?thesis by (auto simp: Let_def)
    next
      case (Some h)
      define st1 where "st1 = st\<lparr>graph := Some (add_edge
          (add_edge g (ThreadNode w) (LockNode \<lparr>addr = a, resource = ''MongoDB lock''\<rparr>))
          (LockNode \<lparr>addr = a, resource = ''MongoDB lock''\<rparr>) (ThreadNode h))\<rparr>"
      from Some \<open>graph st = Some g\<close> Cons.prems(2)
      have "granted_list_loop st1 thread_dict False w text a rs we = (r, st')"
        by (simp add: Let_def st1_def)
      moreover from Cons.prems(1) have "\<forall>ev \<in> set (out st1). notice ev" by (simp add: st1_def)
      ultimately show ?thesis by (rule Cons.IH[rotated])
    qed
  qed
qed

lemma find_lock_manager_holders_notice:
  assumes "\<forall>ev \<in> set (out st). notice ev"
    and "find_lock_manager_holders st re_match thread_dict False lwp newest = (r, st')"
  shows "\<forall>ev \<in> set (out st'). notice ev"
proof -
  obtain e fr st0 where f: "find_frame st re_match locker_impl_pattern newest = (e, fr, st0)"
    by (cases "find_frame st re_match locker_impl_pattern newest") auto
  from find_frame_notice[OF assms(1) f] have n0: "\<forall>ev \<in> set (out st0). notice ev" .
  from assms(2) f n0 granted_list_loop_notice[OF n0] show ?thesis
    by (auto simp: find_lock_manager_holders_def
        split: option.splits sum.splits prod.splits if_splits)
qed

lemma get_locks_notice:
  "\<forall>ev \<in> set (out st). notice ev \<Longrightarrow>
   get_locks st re_match thread_dict False threads = (r, st') \<Longrightarrow>
   \<forall>ev \<in> set (out st'). notice ev"
proof (induction st re_match thread_dict "False" threads rule: get_locks.induct)
  case (1 st re_match thread_dict)
  then show ?case by simp
next
  case (2 st re_match thread_dict ts)
  then show ?case by simp
next
  case (3 st re_match thread_dict msg ts)
  from 3(3) have "get_locks (emit st (ignoring msg ''get_locks'')) re_match thread_dict False ts
      = (r, st')"
    by simp
  from 3(1)[OF notice_emit_ignoring[OF 3(2)] this] show ?case .
next
  case (4 st re_match thread_dict lwp newest ts)
  obtain r1 st1 where m: "find_mutex_holder st re_match thread_dict False lwp newest = (r1, st1)"
    by (cases "find_mutex_holder st re_match thread_dict False lwp newest")
  from find_mutex_holder_notice[OF 4(4) m] have n1: "\<forall>ev \<in> set (out st1). notice ev" .
  show ?case
  proof (cases r1)
    case None
    obtain r2 st2 where
      l: "find_lock_manager_holders st1 re_match thread_dict False lwp newest = (r2, st2)"
      by (cases "find_lock_manager_holders st1 re_match thread_dict False lwp newest")
    from find_lock_manager_holders_notice[OF n1 l] have n2: "\<forall>ev \<in> set (out st2). notice ev" .
    show ?thesis
    proof (cases r2)
      case n: None
      with None m l 4(5) have "get_locks st2 re_match thread_dict False ts = (r, st')" by simp
      from 4(1)[OF m[symmetric] None l[symmetric] n n2 this] show ?thesis .
    next
      case (Some err)
      show ?thesis
      proof (cases err)
        case (gdb_error msg)
        with Some None m l 4(5)
        have "get_locks (emit st2 (ignoring msg ''get_locks'')) re_match thread_dict False ts
            = (r, st')"
          by simp
        from 4(2)[OF m[symmetric] None l[symmetric] Some gdb_error notice_emit_ignoring[OF n2] this]
        show ?thesis .
      qed (use Some None m l 4(5) n2 in auto)
    qed
  next
    case (Some err)
    show ?thesis
    proof (cases err)
      case (gdb_error msg)
      with Some m 4(5)
      have "get_locks (emit st1 (ignoring msg ''get_locks'')) re_match thread_dict False ts
          = (r, st')"
        by simp
      from 4(3)[OF m[symmetric] Some gdb_error notice_emit_ignoring[OF n1] this]
      show ?thesis .
    qed (use Some m 4(5) n1 in auto)
  qed
qed

lemma hd_to_graph: "to_graph g nodes message = CHR ''#'' # tl (to_graph g nodes message)"
  by (simp add: to_graph_def)

lemma notice_not_rendering:
  "notice ev \<Longrightarrow> (\<forall>f c. ev \<noteq> WriteFile f c) \<and> (\<forall>g nodes message. ev \<noteq> Print (to_graph g nodes message))"
proof (cases ev)
  case (Print s)
  assume "notice ev"
  with Print have "hd s \<noteq> CHR ''#''" by (simp add: notice_def)
  moreover have "hd (to_graph g nodes message) = CHR ''#''" for g nodes message
    using hd_to_graph[of g nodes message] by (metis list.sel(1))
  ultimately show ?thesis using Print by auto
next
  case (WriteFile f c)
  assume "notice ev"
  with WriteFile show ?thesis by (simp add: notice_def)
qed

text \<open>
  C8. When the graph is empty after pruning, \<open>mongodb_waitsfor_graph\<close> prints the notice
  that no digraph is generated and returns: after what \<open>get_threads_info\<close>, \<open>find_frame\<close> and
  \<open>get_locks\<close> printed there is this one line, nothing is written to a file, and no
  printed line is a rendering of a graph.
\<close>

theorem empty_graph_reported:
  assumes "get_threads_info infos = (thread_dict, printed)"
    and "get_locks \<lparr>graph = Some Graph_init, out = printed\<rparr> re_match thread_dict False threads
           = (None, st)"
    and "graph st = Some g0"
    and "is_empty (remove_nodes_without_edge g0)"
  shows "mongodb_waitsfor_graph list_repr re_match (Inr infos) (Inr threads) graph_file =
           (None, out st @ [Print ''Not generating the digraph, since the lock graph is empty'']) \<and>
         (\<forall>ev \<in> set (snd (mongodb_waitsfor_graph list_repr re_match (Inr infos) (Inr threads)
                              graph_file)).
            (\<forall>f c. ev \<noteq> WriteFile f c) \<and>
            (\<forall>g nodes message. ev \<noteq> Print (to_graph g nodes message)))"
proof -
  have r: "mongodb_waitsfor_graph list_repr re_match (Inr infos) (Inr threads) graph_file =
           (None, out st @ [Print ''Not generating the digraph, since the lock graph is empty''])"
    using assms by (simp add: mongodb_waitsfor_graph_def)
  have "\<forall>ev \<in> set []. notice ev" by simp
  from get_threads_info_loop_notice[OF this assms(1)[unfolded get_threads_info_def]]
  have "\<forall>ev \<in> set (out \<lparr>graph = Some Graph_init, out = printed\<rparr>). notice ev" by simp
  from get_locks_notice[OF this assms(2)] have n: "\<forall>ev \<in> set (out st). notice ev" .
  have "notice (Print ''Not generating the digraph, since the lock graph is empty'')"
    by (simp add: notice_def)
  with n have "\<forall>ev \<in> set (out st @ [Print ''Not generating the digraph, since the lock graph is empty'']).
      notice ev" by simp
  then have "\<forall>ev \<in> set (snd (mongodb_waitsfor_graph list_repr re_match (Inr infos) (Inr threads)
      graph_file)). notice ev" by (simp add: r)
  with notice_not_rendering r show ?thesis by blast
qed

theorem empty_graph_reported_witness:
  "get_threads_info quiet_info =
     ([(101, \<lparr>thread_id = 1, lwpid = 101, name = ''conn1''\<rparr>)],
      [Print ''Ignoring GDB error 'gone' in get_threads_info'',
       Print ''Unable to retrieve thread_info for thread 3'']) \<and>
   get_locks \<lparr>graph = Some Graph_init,
              out = [Print ''Ignoring GDB error 'gone' in get_threads_info'',
                     Print ''Unable to retrieve thread_info for thread 3'']\<rparr>
     example_match [(101, \<lparr>thread_id = 1, lwpid = 101, name = ''conn1''\<rparr>)] False quiet_threads
     = (None,
        \<lparr>graph = Some [],
          out = [Print ''Ignoring GDB error 'gone' in get_threads_info'',
                 Print ''Unable to retrieve thread_info for thread 3'',
                 Print ''Ignoring GDB error 'gone' in get_locks'',
                 Print ''Ignoring GDB error 'corrupt stack' in find_frame'',
                 Print ''Ignoring GDB error 'corrupt stack' in find_frame'']\<rparr>) \<and>
   is_empty (remove_nodes_without_edge []) \<and>
   mongodb_waitsfor_graph concat example_match (Inr quiet_info) (Inr quiet_threads) None
     = (None,
        [Print ''Ignoring GDB error 'gone' in get_threads_info'',
         Print ''Unable to retrieve thread_info for thread 3'',
         Print ''Ignoring GDB error 'gone' in get_locks'',
         Print ''Ignoring GDB error 'corrupt stack' in find_frame'',
         Print ''Ignoring GDB error 'corrupt stack' in find_frame'',
         Print ''Not generating the digraph, since the lock graph is empty''])"
proof -
  have h1: "get_threads_info quiet_info =
     ([(101, \<lparr>thread_id = 1, lwpid = 101, name = ''conn1''\<rparr>)],
      [Print ''Ignoring GDB error 'gone' in get_threads_info'',
       Print ''Unable to retrieve thread_info for thread 3''])"
    by code_simp
  have h2: "get_locks \<lparr>graph = Some Graph_init,
              out = [Print ''Ignoring GDB error 'gone' in get_threads_info'',
                     Print ''Unable to retrieve thread_info for thread 3'']\<rparr>
     example_match [(101, \<lparr>thread_id = 1, lwpid = 101, name = ''conn1''\<rparr>)] False quiet_threads
     = (None,
        \<lparr>graph = Some [],
          out = [Print ''Ignoring GDB error 'gone' in get_threads_info'',
                 Print ''Unable to retrieve thread_info for thread 3'',
                 Print ''Ignoring GDB error 'gone' in get_locks'',
                 Print ''Ignoring GDB error 'corrupt stack' in find_frame'',
                 Print ''Ignoring GDB error 'corrupt stack' in find_frame'']\<rparr>)"
    by code_simp
  have h3: "graph \<lparr>graph = Some [],
          out = [Print ''Ignoring GDB error 'gone' in get_threads_info'',
                 Print ''Unable to retrieve thread_info for thread 3'',
                 Print ''Ignoring GDB error 'gone' in get_locks'',
                 Print ''Ignoring GDB error 'corrupt stack' in find_frame'',
                 Print ''Ignoring GDB error 'corrupt stack' in find_frame'']\<rparr> = Some []"
    by simp
  have h4: "is_empty (remove_nodes_without_edge [])"
    by (simp add: is_empty_def remove_nodes_without_edge_def)
  from empty_graph_reported[OF h1 h2 h3 h4, of concat None]
  have "mongodb_waitsfor_graph concat example_match (Inr quiet_info) (Inr quiet_threads) None
     = (None,
        [Print ''Ignoring GDB error 'gone' in get_threads_info'',
         Print ''Unable to retrieve thread_info for thread 3'',
         Print ''Ignoring GDB error 'gone' in get_locks'',
         Print ''Ignoring GDB error 'corrupt stack' in find_frame'',
         Print ''Ignoring GDB error 'corrupt stack' in find_frame'',
         Print ''Not generating the digraph, since the lock graph is empty''])"
    by simp
  with h1 h2 h4 show ?thesis by blast
qed

section \<open>A holder that is not in the thread snapshot\<close>

text \<open>
  C4. A resource whose holder is not in \<open>thread_dict\<close>. \<open>find_mutex_holder\<close> makes a
  placeholder thread from the LWP id of the owner and the pass goes on: below, the graph
  gets the waiter, the mutex and the placeholder \<open>Thread 0x000000000066\<close>. In
  \<open>find_lock_manager_holders\<close>, \<open>find_thread\<close> returns \<open>None\<close> for such a holder and
  \<open>add_edge\<close> raises \<open>AttributeError\<close>, which neither \<open>get_locks\<close> nor the command
  catches: the command ends with the exception and prints nothing.
\<close>

theorem unknown_holder_paths_differ:
  "mongodb_waitsfor_graph list_repr example_match (Inr one_thread) (Inr lock_wait_unknown_holder)
     None
   = (Some AttributeError, []) \<and>
   get_threads_info one_thread = ([(101, \<lparr>thread_id = 1, lwpid = 101, name = ''conn1''\<rparr>)], []) \<and>
   fst (get_locks \<lparr>graph = Some Graph_init, out = []\<rparr> example_match
          [(101, \<lparr>thread_id = 1, lwpid = 101, name = ''conn1''\<rparr>)] False
          mutex_wait_unknown_holder) = None \<and>
   map_option (map fst)
     (graph (snd (get_locks \<lparr>graph = Some Graph_init, out = []\<rparr> example_match
                    [(101, \<lparr>thread_id = 1, lwpid = 101, name = ''conn1''\<rparr>)] False
                    mutex_wait_unknown_holder)))
   = Some [''Thread 0x000000000001'', ''Lock 0x0000000000a1'', ''Thread 0x000000000066''] \<and>
   fst (get_locks \<lparr>graph = Some Graph_init, out = []\<rparr> example_match
          [(101, \<lparr>thread_id = 1, lwpid = 101, name = ''conn1''\<rparr>)] False
          lock_wait_unknown_holder) = Some AttributeError"
  by code_simp

end
